theory Spec2Isabelle
  imports Complex_Main "HOL-Library.AList" "HOL-Library.Multiset"
begin

section \<open>Python string primitives\<close>

definition is_space :: "char \<Rightarrow> bool" where
  "is_space c = (c \<in> set [CHR '' '', CHR 0x09, CHR 0x0A, CHR 0x0B, CHR 0x0C, CHR 0x0D,
                           CHR 0x1C, CHR 0x1D, CHR 0x1E, CHR 0x1F])"

definition str_strip :: "string \<Rightarrow> string" where
  "str_strip s = rev (dropWhile is_space (rev (dropWhile is_space s)))"

definition str_startswith :: "string \<Rightarrow> string \<Rightarrow> bool" where
  "str_startswith s p = (take (length p) s = p)"

definition str_endswith :: "string \<Rightarrow> string \<Rightarrow> bool" where
  "str_endswith s p = (length p \<le> length s \<and> drop (length s - length p) s = p)"

fun find_sub :: "string \<Rightarrow> string \<Rightarrow> (string \<times> string) option" where
  "find_sub sep [] = (if sep = [] then Some ([], []) else None)"
| "find_sub sep (c # cs) =
     (if str_startswith (c # cs) sep then Some ([], drop (length sep) (c # cs))
      else (case find_sub sep cs of None \<Rightarrow> None | Some (a, b) \<Rightarrow> Some (c # a, b)))"

definition str_contains :: "string \<Rightarrow> string \<Rightarrow> bool" where
  "str_contains sub s = (find_sub sub s \<noteq> None)"

definition str_split1 :: "string \<Rightarrow> string \<Rightarrow> string \<times> string" where
  "str_split1 sep s = (case find_sub sep s of Some (a, b) \<Rightarrow> (a, b) | None \<Rightarrow> (s, []))"

function str_split_acc :: "string \<Rightarrow> string \<Rightarrow> string \<Rightarrow> string list" where
  "str_split_acc sep acc [] = [acc]"
| "str_split_acc sep acc (c # cs) =
     (if sep \<noteq> [] \<and> str_startswith (c # cs) sep
      then acc # str_split_acc sep [] (drop (length sep) (c # cs))
      else str_split_acc sep (acc @ [c]) cs)"
  by pat_completeness auto
termination
  by (relation "measure (\<lambda>(sep, acc, s). length s)") auto

definition str_split :: "string \<Rightarrow> string \<Rightarrow> string list" where
  "str_split sep s = str_split_acc sep [] s"

function str_replace :: "string \<Rightarrow> string \<Rightarrow> string \<Rightarrow> string" where
  "str_replace old new [] = []"
| "str_replace old new (c # cs) =
     (if old \<noteq> [] \<and> str_startswith (c # cs) old
      then new @ str_replace old new (drop (length old) (c # cs))
      else c # str_replace old new cs)"
  by pat_completeness auto
termination
  by (relation "measure (\<lambda>(old, new, s). length s)") auto

definition lower_char :: "char \<Rightarrow> char" where
  "lower_char c = (let n = (of_char c :: nat) in if 65 \<le> n \<and> n \<le> 90 then char_of (n + 32) else c)"

definition upper_char :: "char \<Rightarrow> char" where
  "upper_char c = (let n = (of_char c :: nat) in if 97 \<le> n \<and> n \<le> 122 then char_of (n - 32) else c)"

definition str_lower :: "string \<Rightarrow> string" where
  "str_lower s = map lower_char s"

definition str_upper :: "string \<Rightarrow> string" where
  "str_upper s = map upper_char s"


section \<open>Values, exceptions and literal parsing\<close>

text \<open>
  A cell or literal value. \<open>VNull\<close> stands for pandas' missing value (\<open>None\<close>/\<open>NaN\<close>).
  A Python \<open>float\<close> is modelled by the real number it denotes (rounding, infinities and
  64-bit overflow of integers are not modelled).
\<close>

datatype val = VNull | VBool bool | VInt int | VFloat real | VStr string | VList "val list"

text \<open>Python exceptions, as values: the class and the text of \<open>str(e)\<close>'s argument.\<close>

datatype exn =
    KeyError string
  | ValueError string
  | TypeError string
  | AttributeError string
  | IndexingError string

definition py_repr_str :: "string \<Rightarrow> string" where
  "py_repr_str s =
     (if CHR 0x27 \<in> set s \<and> CHR 0x22 \<notin> set s then [CHR 0x22] @ s @ [CHR 0x22]
      else [CHR 0x27] @ s @ [CHR 0x27])"

fun exn_str :: "exn \<Rightarrow> string" where
  "exn_str (KeyError k) = py_repr_str k"
| "exn_str (ValueError m) = m"
| "exn_str (TypeError m) = m"
| "exn_str (AttributeError m) = m"
| "exn_str (IndexingError m) = m"

definition is_digit :: "char \<Rightarrow> bool" where
  "is_digit c = (let n = (of_char c :: nat) in 48 \<le> n \<and> n \<le> 57)"

definition is_word :: "char \<Rightarrow> bool" where
  "is_word c = (let n = (of_char c :: nat) in
     (48 \<le> n \<and> n \<le> 57) \<or> (65 \<le> n \<and> n \<le> 90) \<or> (97 \<le> n \<and> n \<le> 122) \<or> n = 95)"

text \<open>A \<open>digitpart\<close> of Python's numeric grammar: digits, single underscores between them.\<close>

definition digitpart :: "string \<Rightarrow> bool" where
  "digitpart s = (s \<noteq> [] \<and> is_digit (hd s) \<and> is_digit (last s) \<and>
     (\<forall>c \<in> set s. is_digit c \<or> c = CHR ''_'') \<and> \<not> str_contains ''__'' s)"

definition digits_val :: "string \<Rightarrow> nat" where
  "digits_val s = foldl (\<lambda>a c. 10 * a + (of_char c - 48)) 0 (filter is_digit s)"

definition split_sign :: "string \<Rightarrow> bool \<times> string" where
  "split_sign s = (case s of [] \<Rightarrow> (False, [])
     | c # r \<Rightarrow> if c = CHR ''-'' then (True, r) else if c = CHR ''+'' then (False, r) else (False, s))"

text \<open>\<open>int(s)\<close> for a string: \<open>None\<close> is \<open>ValueError\<close>.\<close>

definition py_int :: "string \<Rightarrow> int option" where
  "py_int s = (case split_sign (str_strip s) of (neg, body) \<Rightarrow>
     if digitpart body then Some (if neg then - int (digits_val body) else int (digits_val body))
     else None)"

text \<open>
  \<open>float(s)\<close> for a string with a decimal point, after Python's grammar
  \<open>floatnumber ::= ([digitpart] "." digitpart | digitpart ["."]) [("e"|"E") ["+"|"-"] digitpart]\<close>.
  The words \<open>inf\<close> and \<open>nan\<close> hold no point, and \<open>_parse_value\<close> calls \<open>float\<close> only on
  strings that hold one.
\<close>

definition py_float :: "string \<Rightarrow> real option" where
  "py_float s = (case split_sign (str_strip s) of (neg, body) \<Rightarrow>
     (let (mant, ex) = (case find_sub ''e'' (str_lower body) of
                          None \<Rightarrow> (body, None)
                        | Some (a, b) \<Rightarrow> (take (length a) body, Some (drop (length a + 1) body)));
          (ip, fp) = str_split1 ''.'' mant;
          mant_ok = ((ip \<noteq> [] \<or> fp \<noteq> []) \<and> (ip = [] \<or> digitpart ip) \<and> (fp = [] \<or> digitpart fp));
          m = real (digits_val ip) + real (digits_val fp) / 10 ^ length (filter is_digit fp)
      in
      if \<not> mant_ok then None
      else (case ex of
              None \<Rightarrow> Some (if neg then - m else m)
            | Some e \<Rightarrow> (case split_sign e of (eneg, ed) \<Rightarrow>
                if \<not> digitpart ed then None
                else (let v = (if eneg then m / 10 ^ digits_val ed else m * 10 ^ digits_val ed)
                      in Some (if neg then - v else v))))))"

text \<open>
  \<open>_parse_value\<close>, lines 118--145. The branches before the list branch do not recurse:
  quoted strings, numbers (\<open>float\<close> when the text holds a point, \<open>int\<close> otherwise; a
  \<open>ValueError\<close> falls through), booleans.
\<close>

definition parse_scalar :: "string \<Rightarrow> val option" where
  "parse_scalar v =
     (if str_startswith v [CHR 0x27] \<and> str_endswith v [CHR 0x27] then Some (VStr (butlast (tl v)))
      else if str_startswith v [CHR 0x22] \<and> str_endswith v [CHR 0x22] then Some (VStr (butlast (tl v)))
      else (case (if CHR ''.'' \<in> set v then map_option VFloat (py_float v)
                  else map_option VInt (py_int v)) of
              Some n \<Rightarrow> Some n
            | None \<Rightarrow>
                if str_lower v = ''true'' then Some (VBool True)
                else if str_lower v = ''false'' then Some (VBool False)
                else None))"

definition is_list_literal :: "string \<Rightarrow> bool" where
  "is_list_literal v = (str_startswith v ''('' \<and> str_endswith v '')'')"

function parse_value :: "string \<Rightarrow> val" where
  "parse_value v =
     (case parse_scalar v of
        Some x \<Rightarrow> x
      | None \<Rightarrow>
          if is_list_literal v
          then VList (map (\<lambda>item. parse_value (str_strip item)) (str_split '','' (butlast (tl v))))
          else VStr v)"
  by pat_completeness auto
termination
proof (relation "measure length")
  show "wf (measure length)" by simp
next
  fix v :: string and item :: string
  assume v: "is_list_literal v"
    and item: "item \<in> set (str_split '','' (butlast (tl v)))"
  have acc: "\<And>sep acc s y. y \<in> set (str_split_acc sep acc s) \<Longrightarrow> length y \<le> length acc + length s"
  proof -
    fix sep acc s y
    show "y \<in> set (str_split_acc sep acc s) \<Longrightarrow> length y \<le> length acc + length s"
      by (induction sep acc s rule: str_split_acc.induct) (auto split: if_splits)
  qed
  have strip_le: "length (str_strip item) \<le> length item"
    unfolding str_strip_def
    by (metis length_dropWhile_le length_rev order_trans)
  from v have "v \<noteq> []" by (auto simp: is_list_literal_def str_startswith_def)
  moreover from item acc[of item "'',''" "[]" "butlast (tl v)"]
  have "length item \<le> length (butlast (tl v))" by (simp add: str_split_def)
  ultimately have "length item < length v" by (cases v) auto
  with strip_le show "(str_strip item, v) \<in> measure length" by simp
qed

declare parse_value.simps [simp del]

section \<open>The argument tokenizer and the query parser\<close>

text \<open>
  The loop of \<open>_parse_arguments\<close> (lines 88--102): the state is
  \<open>(tokens, current_token, paren_depth)\<close>.
\<close>

fun tok_loop :: "string \<Rightarrow> string list \<times> string \<times> int \<Rightarrow> string list \<times> string \<times> int" where
  "tok_loop [] st = st"
| "tok_loop (c # cs) (tokens, cur, depth) =
     (let depth' = (if c = CHR ''('' then depth + 1
                    else if c = CHR '')'' then depth - 1 else depth)
      in if c = CHR '','' \<and> depth' = 0
         then tok_loop cs (tokens @ [str_strip cur], [], depth')
         else tok_loop cs (tokens, cur @ [c], depth'))"

definition tokenize :: "string \<Rightarrow> string list" where
  "tokenize arg_string =
     (case tok_loop arg_string ([], [], 0) of
        (tokens, cur, depth) \<Rightarrow> if cur \<noteq> [] then tokens @ [str_strip cur] else tokens)"

type_synonym kwargs = "(string \<times> val) list"

fun classify_tokens :: "string list \<Rightarrow> val list \<times> kwargs \<Rightarrow> val list \<times> kwargs" where
  "classify_tokens [] st = st"
| "classify_tokens (token # ts) (args, kw) =
     (if CHR ''='' \<in> set token
      then (case str_split1 ''='' token of (key, v) \<Rightarrow>
              classify_tokens ts (args, AList.update (str_strip key) (parse_value (str_strip v)) kw))
      else classify_tokens ts (args @ [parse_value token], kw))"

definition parse_arguments :: "string \<Rightarrow> val list \<times> kwargs" where
  "parse_arguments arg_string =
     (if arg_string = [] then ([], []) else classify_tokens (tokenize arg_string) ([], []))"

record operation =
  op_function :: string
  op_args :: "val list"
  op_kwargs :: kwargs

text \<open>\<open>re.match(r'(\w+)\s*(.*)', part)\<close>: the two groups, or \<open>None\<close>.\<close>

definition re_match_stage :: "string \<Rightarrow> (string \<times> string) option" where
  "re_match_stage part =
     (let w = takeWhile is_word part in
      if w = [] then None
      else Some (w, takeWhile (\<lambda>c. c \<noteq> CHR 0x0A) (dropWhile is_space (drop (length w) part))))"

definition parse_part :: "string \<Rightarrow> operation option" where
  "parse_part part0 =
     (let part = str_strip part0 in
      if part = [] then None
      else (case re_match_stage part of
              None \<Rightarrow> None
            | Some (g1, g2) \<Rightarrow>
                (case parse_arguments (str_strip g2) of (args, kw) \<Rightarrow>
                   Some \<lparr>op_function = str_lower g1, op_args = args, op_kwargs = kw\<rparr>)))"

definition parse_query :: "string \<Rightarrow> operation list" where
  "parse_query query = List.map_filter parse_part (str_split ''|'' (str_strip query))"


section \<open>Tables and the library boundary\<close>

text \<open>
  A pandas \<open>DataFrame\<close>: the column labels with their dtypes, and the rows, each with
  its index label and one cell per column. Stages keep and permute index labels
  (\<open>df[mask]\<close>, \<open>sort_values\<close>), and \<open>_where\<close> depends on them.
\<close>

datatype dtype = Int64 | Float64 | Boolean | Object

record table =
  columns :: "(string \<times> dtype) list"
  rows :: "(int \<times> val list) list"

definition colnames :: "table \<Rightarrow> string list" where
  "colnames t = map fst (columns t)"

definition labels :: "table \<Rightarrow> int list" where
  "labels t = map fst (rows t)"

fun index_of :: "'a \<Rightarrow> 'a list \<Rightarrow> nat option" where
  "index_of x [] = None"
| "index_of x (y # ys) = (if x = y then Some 0 else map_option Suc (index_of x ys))"

definition column_values :: "table \<Rightarrow> nat \<Rightarrow> val list" where
  "column_values t p = map (\<lambda>r. snd r ! p) (rows t)"

text \<open>\<open>df[col]\<close> for a column label: the position, or \<open>KeyError\<close>.\<close>

definition getitem :: "table \<Rightarrow> string \<Rightarrow> exn + nat" where
  "getitem t c = (case index_of c (colnames t) of None \<Rightarrow> Inl (KeyError c) | Some p \<Rightarrow> Inr p)"

definition range_index :: "nat \<Rightarrow> int list" where
  "range_index n = map int [0..<n]"

definition reset_index :: "(int \<times> val list) list \<Rightarrow> (int \<times> val list) list" where
  "reset_index rs = zip (range_index (length rs)) (map snd rs)"

text \<open>
  What the engine takes from pandas, NumPy and \<open>re\<close> and this repository does not define:
  the text of a float, a case-insensitive regular-expression search, the numeric
  reductions of a column, \<open>DataFrame.agg\<close> over a dictionary whose keys are all columns,
  NumPy's default (unstable) \<open>argsort\<close>, the random choice of \<open>sample\<close>, and
  \<open>nlargest\<close>/\<open>nsmallest\<close>. The model takes them as a parameter: the theorems hold for
  every such library, the one on \<open>sort\<close> for every library whose \<open>argsort\<close> sorts.
\<close>

record pylib =
  float_repr :: "real \<Rightarrow> string"
  regex_search :: "string \<Rightarrow> string \<Rightarrow> exn + bool"
  series_reduce :: "string \<Rightarrow> val list \<Rightarrow> exn + val"
  frame_agg :: "table \<Rightarrow> (string \<times> string \<times> string) list \<Rightarrow> exn + table"
  np_argsort :: "val list \<Rightarrow> nat list"
  sample_positions :: "nat \<Rightarrow> nat \<Rightarrow> nat list"
  nselect :: "bool \<Rightarrow> int \<Rightarrow> val list \<Rightarrow> nat list"

fun sequence :: "(exn + 'a) list \<Rightarrow> exn + 'a list" where
  "sequence [] = Inr []"
| "sequence (x # xs) =
     (case x of Inl e \<Rightarrow> Inl e
      | Inr v \<Rightarrow> (case sequence xs of Inl e \<Rightarrow> Inl e | Inr vs \<Rightarrow> Inr (v # vs)))"

subsection \<open>Python values: text, numbers, comparison\<close>

fun digits_of :: "nat \<Rightarrow> string" where
  "digits_of n = (if n < 10 then [char_of (48 + n)] else digits_of (n div 10) @ [char_of (48 + n mod 10)])"

declare digits_of.simps [simp del]

definition int_str :: "int \<Rightarrow> string" where
  "int_str i = (if i < 0 then CHR ''-'' # digits_of (nat (- i)) else digits_of (nat i))"

definition join_str :: "string \<Rightarrow> string list \<Rightarrow> string" where
  "join_str sep xs = (case xs of [] \<Rightarrow> [] | y # ys \<Rightarrow> y @ concat (map (\<lambda>z. sep @ z) ys))"

text \<open>\<open>str(x)\<close>; inside a list, strings are quoted as \<open>repr\<close> does.\<close>

fun py_str :: "pylib \<Rightarrow> val \<Rightarrow> string" where
  "py_str lib VNull = ''nan''"
| "py_str lib (VBool b) = (if b then ''True'' else ''False'')"
| "py_str lib (VInt i) = int_str i"
| "py_str lib (VFloat r) = float_repr lib r"
| "py_str lib (VStr s) = s"
| "py_str lib (VList xs) =
     ''['' @ join_str '', '' (map (\<lambda>x. case x of VStr s \<Rightarrow> py_repr_str s | _ \<Rightarrow> py_str lib x) xs) @ '']''"

fun num_of :: "val \<Rightarrow> real option" where
  "num_of (VBool b) = Some (if b then 1 else 0)"
| "num_of (VInt i) = Some (real_of_int i)"
| "num_of (VFloat r) = Some r"
| "num_of _ = None"

fun str_le :: "string \<Rightarrow> string \<Rightarrow> bool" where
  "str_le [] ys = True"
| "str_le (x # xs) [] = False"
| "str_le (x # xs) (y # ys) =
     ((of_char x :: nat) < of_char y \<or> (x = y \<and> str_le xs ys))"

text \<open>
  \<open>==\<close> on two scalars: a missing value equals nothing; numbers (and booleans, which
  Python counts as 0 and 1) compare by value.
\<close>

definition py_eq :: "val \<Rightarrow> val \<Rightarrow> bool" where
  "py_eq a b =
     (case (num_of a, num_of b) of
        (Some x, Some y) \<Rightarrow> x = y
      | _ \<Rightarrow> (case (a, b) of
                 (VStr s, VStr u) \<Rightarrow> s = u
               | (VList xs, VList ys) \<Rightarrow> xs = ys
               | _ \<Rightarrow> False))"

datatype wop = OpEq | OpNe | OpGe | OpLe | OpGt | OpLt | OpContains | OpStartswith | OpEndswith

text \<open>
  An ordering comparison of two scalars: false against a missing value, by value on
  numbers, by code points on strings, \<open>TypeError\<close> otherwise.
\<close>

definition py_order :: "wop \<Rightarrow> val \<Rightarrow> val \<Rightarrow> exn + bool" where
  "py_order w a b =
     (if a = VNull \<or> b = VNull then Inr False
      else (case (num_of a, num_of b) of
              (Some x, Some y) \<Rightarrow>
                Inr (if w = OpGe then x \<ge> y else if w = OpLe then x \<le> y
                     else if w = OpGt then x > y else x < y)
            | _ \<Rightarrow> (case (a, b) of
                       (VStr s, VStr u) \<Rightarrow>
                         Inr (if w = OpGe then str_le u s else if w = OpLe then str_le s u
                              else if w = OpGt then \<not> str_le s u else \<not> str_le u s)
                     | _ \<Rightarrow> Inl (TypeError ''comparison not supported between these types''))))"

definition elem_cmp :: "wop \<Rightarrow> val \<Rightarrow> val \<Rightarrow> exn + bool" where
  "elem_cmp w a b =
     (if w = OpEq then Inr (py_eq a b)
      else if w = OpNe then Inr (\<not> py_eq a b)
      else py_order w a b)"

subsection \<open>Keys and their order\<close>

text \<open>
  pandas hashes a key cell with Python's equality, under which \<open>1\<close>, \<open>1.0\<close> and
  \<open>True\<close> are one key: \<open>canon\<close> picks one form per class. \<open>key_le\<close> is the ascending
  order of keys: numbers by value, then strings by code points (then everything else,
  which the operators below refuse before they sort).
\<close>

definition canon :: "val \<Rightarrow> val" where
  "canon v = (case num_of v of
                Some r \<Rightarrow> if r = of_int \<lfloor>r\<rfloor> then VInt \<lfloor>r\<rfloor> else VFloat r
              | None \<Rightarrow> v)"

definition key_le :: "val \<Rightarrow> val \<Rightarrow> bool" where
  "key_le a b =
     (case (num_of a, num_of b) of
        (Some x, Some y) \<Rightarrow> x \<le> y
      | (Some x, None) \<Rightarrow> True
      | (None, Some y) \<Rightarrow> False
      | (None, None) \<Rightarrow>
          (case (a, b) of
             (VStr s, VStr u) \<Rightarrow> str_le s u
           | (VStr s, _) \<Rightarrow> True
           | (_, VStr u) \<Rightarrow> False
           | _ \<Rightarrow> True))"

text \<open>
  The order of one key column in a sort: missing values last in either direction
  (\<open>na_position='last'\<close>), the others by \<open>key_le\<close>, reversed when descending. Tuples of
  keys are ordered from left to right.
\<close>

definition cell_le :: "bool \<Rightarrow> val \<Rightarrow> val \<Rightarrow> bool" where
  "cell_le ascending a b =
     (if b = VNull then True else if a = VNull then False
      else if ascending then key_le a b else key_le b a)"

fun lex_le :: "bool \<Rightarrow> val list \<Rightarrow> val list \<Rightarrow> bool" where
  "lex_le ascending (a # as) (b # bs) =
     (if canon a = canon b then lex_le ascending as bs else cell_le ascending a b)"
| "lex_le ascending _ _ = True"

text \<open>A stable insertion sort by a given order.\<close>

fun insort_by :: "('a \<Rightarrow> 'a \<Rightarrow> bool) \<Rightarrow> 'a \<Rightarrow> 'a list \<Rightarrow> 'a list" where
  "insort_by le x [] = [x]"
| "insort_by le x (y # ys) = (if le x y then x # y # ys else y # insort_by le x ys)"

definition sort_by :: "('a \<Rightarrow> 'a \<Rightarrow> bool) \<Rightarrow> 'a list \<Rightarrow> 'a list" where
  "sort_by le xs = foldr (insort_by le) xs []"

definition is_list :: "val \<Rightarrow> bool" where
  "is_list v = (case v of VList _ \<Rightarrow> True | _ \<Rightarrow> False)"

text \<open>Values NumPy can order among themselves: all numbers, or all strings.\<close>

definition comparable :: "val list \<Rightarrow> bool" where
  "comparable ks = ((\<forall>k \<in> set ks. num_of k \<noteq> None) \<or>
                    (\<forall>k \<in> set ks. case k of VStr _ \<Rightarrow> True | _ \<Rightarrow> False))"


section \<open>The stage operators\<close>

subsection \<open>\<open>where\<close> (lines 148--220)\<close>

text \<open>
  The \<open>if\<close>/\<open>elif\<close> chain of \<open>_where\<close> over one sub-condition: the operator, the column
  text and the literal text, both stripped; \<open>None\<close> when no branch applies (the
  sub-condition is then skipped without an error).
\<close>

definition classify :: "string \<Rightarrow> (wop \<times> string \<times> string) option" where
  "classify cond =
     (let cut = (\<lambda>w sep. case str_split1 sep cond of (c, v) \<Rightarrow> Some (w, str_strip c, str_strip v)) in
      if str_contains ''='' cond \<and> \<not> str_contains ''!='' cond \<and> \<not> str_contains ''>='' cond
         \<and> \<not> str_contains ''<='' cond then cut OpEq ''=''
      else if str_contains ''!='' cond then cut OpNe ''!=''
      else if str_contains ''>='' cond then cut OpGe ''>=''
      else if str_contains ''<='' cond then cut OpLe ''<=''
      else if str_contains ''>'' cond then cut OpGt ''>''
      else if str_contains ''<'' cond then cut OpLt ''<''
      else if str_contains ''contains'' cond then cut OpContains ''contains''
      else if str_contains ''startswith'' cond then cut OpStartswith ''startswith''
      else if str_contains ''endswith'' cond then cut OpEndswith ''endswith''
      else None)"

definition is_ordering :: "wop \<Rightarrow> bool" where
  "is_ordering w = (w = OpGe \<or> w = OpLe \<or> w = OpGt \<or> w = OpLt)"

text \<open>
  \<open>df[col] <op> val\<close>. A list literal is compared position by position and must have the
  column's length; a numeric or boolean column cannot be ordered against a string.
\<close>

definition series_cmp :: "wop \<Rightarrow> dtype \<Rightarrow> val list \<Rightarrow> val \<Rightarrow> exn + bool list" where
  "series_cmp w dt vals v =
     (case v of
        VList items \<Rightarrow>
          if length items \<noteq> length vals then Inl (ValueError ''Lengths must match to compare'')
          else sequence (map (\<lambda>(x, y). elem_cmp w x y) (zip vals items))
      | VStr s \<Rightarrow>
          if is_ordering w \<and> dt \<noteq> Object
          then Inl (TypeError ''Invalid comparison between a numeric dtype and str'')
          else sequence (map (\<lambda>x. elem_cmp w x v) vals)
      | _ \<Rightarrow> sequence (map (\<lambda>x. elem_cmp w x v) vals))"

text \<open>The boolean column one classified sub-condition computes, or the exception it raises.\<close>

definition cond_series :: "pylib \<Rightarrow> table \<Rightarrow> wop \<times> string \<times> string \<Rightarrow> exn + bool list" where
  "cond_series lib t p =
     (case p of (w, col, vtext) \<Rightarrow>
        (let v = parse_value vtext in
         case getitem t col of
           Inl e \<Rightarrow> Inl e
         | Inr pos \<Rightarrow>
             (let vals = column_values t pos; dt = snd (columns t ! pos) in
              if w = OpContains
              then sequence (map (\<lambda>x. regex_search lib (py_str lib v) (py_str lib x)) vals)
              else if w = OpStartswith
              then Inr (map (\<lambda>x. str_startswith (py_str lib x) (py_str lib v)) vals)
              else if w = OpEndswith
              then Inr (map (\<lambda>x. str_endswith (py_str lib x) (py_str lib v)) vals)
              else series_cmp w dt vals v)))"

text \<open>
  \<open>mask &= series\<close>. The mask was built as \<open>pd.Series([True] * len(df))\<close>, so its index is
  \<open>0, 1, ..., len(df) - 1\<close>, while the series carries the table's index labels: pandas
  aligns the two on labels, takes a label missing on either side as \<open>False\<close>, and reindexes
  the result like the mask; reindexing fails when the table's labels repeat.
\<close>

definition mask_and :: "int list \<Rightarrow> bool list \<Rightarrow> bool list \<Rightarrow> exn + bool list" where
  "mask_and lbls msk series =
     (if \<not> distinct lbls then Inl (ValueError ''cannot reindex on an axis with duplicate labels'')
      else Inr (map (\<lambda>j. msk ! j \<and> map_of (zip lbls series) (int j) = Some True)
                    [0..<length msk]))"

fun where_loop :: "pylib \<Rightarrow> table \<Rightarrow> string list \<Rightarrow> bool list \<Rightarrow> exn + bool list" where
  "where_loop lib t [] msk = Inr msk"
| "where_loop lib t (cond # conds) msk =
     (case classify (str_strip cond) of
        None \<Rightarrow> where_loop lib t conds msk
      | Some p \<Rightarrow>
          (case cond_series lib t p of
             Inl e \<Rightarrow> Inl e
           | Inr series \<Rightarrow>
               (case mask_and (labels t) msk series of
                  Inl e \<Rightarrow> Inl e
                | Inr msk' \<Rightarrow> where_loop lib t conds msk')))"

text \<open>
  \<open>df[mask]\<close>: every label of the table must be a label of the mask, else pandas raises
  \<open>IndexingError\<close>; a row is taken when the mask holds at its label. When the table is
  empty and no sub-condition touched the mask, the mask is the empty non-boolean series
  \<open>pd.Series([])\<close> and \<open>df[mask]\<close> selects no column.
\<close>

definition getitem_mask :: "table \<Rightarrow> bool \<Rightarrow> bool list \<Rightarrow> exn + table" where
  "getitem_mask t applied msk =
     (if msk = [] \<and> \<not> applied then Inr (t\<lparr>columns := []\<rparr>)
      else if \<forall>l \<in> set (labels t). 0 \<le> l \<and> l < int (length msk)
      then Inr (t\<lparr>rows := filter (\<lambda>r. msk ! nat (fst r)) (rows t)\<rparr>)
      else Inl (IndexingError ''Unalignable boolean Series provided as indexer''))"

definition sub_conditions :: "string \<Rightarrow> string list" where
  "sub_conditions c = str_split ''and'' (str_replace ''!='' ''!='' (str_replace ''=='' ''='' c))"

definition op_where :: "pylib \<Rightarrow> table \<Rightarrow> val list \<Rightarrow> kwargs \<Rightarrow> exn + table" where
  "op_where lib t args kw =
     (case args of
        [] \<Rightarrow> Inr t
      | condition # _ \<Rightarrow>
          (case condition of
             VStr c \<Rightarrow>
               (let conditions = sub_conditions c in
                case where_loop lib t conditions (replicate (length (rows t)) True) of
                  Inl e \<Rightarrow> Inl e
                | Inr msk \<Rightarrow>
                    getitem_mask t (\<exists>cond \<in> set conditions. classify (str_strip cond) \<noteq> None) msk)
           | _ \<Rightarrow> Inr t))"


subsection \<open>\<open>summarize\<close> (lines 222--263)\<close>

text \<open>
  \<open>agg_dict\<close>: result column \<open>\<mapsto>\<close> \<open>NamedAgg(column, aggfunc)\<close>, in insertion order.
  One turn of the parsing loop over the comma-separated expressions:
\<close>

type_synonym agg_dict = "(string \<times> string \<times> string) list"

definition summarize_step :: "string \<Rightarrow> agg_dict \<times> string list \<Rightarrow> agg_dict \<times> string list" where
  "summarize_step e st =
     (case st of (agg, group_by) \<Rightarrow>
        (let expr = str_strip e in
         if CHR ''='' \<in> set expr
         then (case str_split1 ''='' expr of (rc, func_expr) \<Rightarrow>
                 (let result_col = str_strip rc in
                  if CHR ''('' \<in> set func_expr \<and> CHR '')'' \<in> set func_expr
                  then (let func_name = str_strip (str_split ''('' func_expr ! 0);
                            source_col = str_strip (str_split '')'' (str_split ''('' func_expr ! 1) ! 0)
                        in if func_name = ''count''
                           then (AList.update result_col (source_col, ''size'') agg, group_by)
                           else if func_name \<in> set [''sum'', ''mean'', ''min'', ''max'', ''std'', ''median'']
                           then (AList.update result_col (source_col, func_name) agg, group_by)
                           else if func_name = ''dcount''
                           then (AList.update result_col (source_col, ''nunique'') agg, group_by)
                           else (agg, group_by))
                  else (agg, group_by)))
         else (agg, group_by @ [expr])))"

definition summarize_parse :: "string \<Rightarrow> agg_dict \<times> string list" where
  "summarize_parse agg_expr = foldl (\<lambda>st e. summarize_step e st) ([], []) (str_split '','' agg_expr)"

text \<open>\<open>df.select_dtypes(include=[np.number]).columns\<close>\<close>

definition numeric_cols :: "table \<Rightarrow> string list" where
  "numeric_cols t = map fst (filter (\<lambda>c. snd c = Int64 \<or> snd c = Float64) (columns t))"

definition infer_dtype :: "val list \<Rightarrow> dtype" where
  "infer_dtype vs =
     (if vs \<noteq> [] \<and> (\<forall>v \<in> set vs. case v of VInt _ \<Rightarrow> True | _ \<Rightarrow> False) then Int64
      else if (\<exists>v \<in> set vs. case v of VInt _ \<Rightarrow> True | VFloat _ \<Rightarrow> True | _ \<Rightarrow> False)
              \<and> (\<forall>v \<in> set vs. case v of VInt _ \<Rightarrow> True | VFloat _ \<Rightarrow> True | VNull \<Rightarrow> True | _ \<Rightarrow> False)
      then Float64
      else if vs \<noteq> [] \<and> (\<forall>v \<in> set vs. case v of VBool _ \<Rightarrow> True | _ \<Rightarrow> False) then Boolean
      else Object)"

definition group_keys :: "nat list \<Rightarrow> int \<times> val list \<Rightarrow> val list" where
  "group_keys ps r = map (\<lambda>p. canon (snd r ! p)) ps"

text \<open>
  One aggregate of one group: \<open>size\<close> counts the group's rows, \<open>nunique\<close> its distinct
  non-missing values; the numeric reductions are the library's.
\<close>

definition agg_value :: "pylib \<Rightarrow> table \<Rightarrow> (int \<times> val list) list \<Rightarrow> string \<times> string \<Rightarrow> exn + val" where
  "agg_value lib t grp a =
     (case a of (col, f) \<Rightarrow>
        (case getitem t col of
           Inl e \<Rightarrow> Inl e
         | Inr p \<Rightarrow>
             (let vals = map (\<lambda>r. snd r ! p) grp in
              if f = ''size'' then Inr (VInt (int (length grp)))
              else if f = ''nunique''
              then (if \<exists>v \<in> set vals. is_list v then Inl (TypeError ''unhashable type: list'')
                    else Inr (VInt (int (length (remdups (map canon (filter (\<lambda>v. v \<noteq> VNull) vals)))))))
              else series_reduce lib f vals)))"

definition strs_repr :: "string list \<Rightarrow> string" where
  "strs_repr xs = ''['' @ join_str '', '' (map py_repr_str xs) @ '']''"

definition missing_columns_error :: "string list \<Rightarrow> exn" where
  "missing_columns_error cols =
     KeyError (''Column(s) '' @ strs_repr (sort_by str_le (remdups cols)) @ '' do not exist'')"

text \<open>
  \<open>df.groupby(group_by).agg(**agg_dict).reset_index()\<close>, with pandas' defaults
  \<open>dropna=True\<close> (a row with a missing key cell is in no group) and \<open>sort=True\<close> (groups
  in ascending key order). \<open>reset_index\<close> turns the keys into the leading columns and
  fails when a key's name is already a column of the aggregate.
\<close>

definition valid_rows :: "nat list \<Rightarrow> (int \<times> val list) list \<Rightarrow> (int \<times> val list) list" where
  "valid_rows ps rs = filter (\<lambda>r. \<forall>p \<in> set ps. snd r ! p \<noteq> VNull) rs"

definition group_row :: "pylib \<Rightarrow> table \<Rightarrow> nat list \<Rightarrow> agg_dict \<Rightarrow> (int \<times> val list) list
    \<Rightarrow> val list \<Rightarrow> exn + val list" where
  "group_row lib t ps agg valid k =
     (let grp = filter (\<lambda>r. group_keys ps r = k) valid in
      case sequence (map (\<lambda>a. agg_value lib t grp (snd a)) agg) of
        Inl e \<Rightarrow> Inl e
      | Inr vals \<Rightarrow> Inr (map (\<lambda>p. snd (hd grp) ! p) ps @ vals))"

definition aggregate_groups :: "pylib \<Rightarrow> table \<Rightarrow> string list \<Rightarrow> nat list \<Rightarrow> agg_dict
    \<Rightarrow> (int \<times> val list) list \<Rightarrow> exn + table" where
  "aggregate_groups lib t group_by ps agg valid =
     (let ks = sort_by (lex_le True) (remdups (map (group_keys ps) valid)) in
      case sequence (map (group_row lib t ps agg valid) ks) of
        Inl e \<Rightarrow> Inl e
      | Inr out \<Rightarrow>
          if \<not> distinct (group_by @ map fst agg)
          then Inl (ValueError ''cannot insert a key column, already exists'')
          else Inr \<lparr>columns =
                      map (\<lambda>p. columns t ! p) ps @
                      map (\<lambda>i. (fst (agg ! i),
                                 if snd (snd (agg ! i)) = ''size'' \<or> snd (snd (agg ! i)) = ''nunique''
                                 then Int64
                                 else infer_dtype (map (\<lambda>cells. cells ! (length ps + i)) out)))
                          [0..<length agg],
                    rows = zip (range_index (length out)) out\<rparr>)"

definition groupby_agg :: "pylib \<Rightarrow> table \<Rightarrow> string list \<Rightarrow> agg_dict \<Rightarrow> exn + table" where
  "groupby_agg lib t group_by agg =
     (case sequence (map (getitem t) group_by) of
        Inl e \<Rightarrow> Inl e
      | Inr ps \<Rightarrow>
          (let missing = filter (\<lambda>c. c \<notin> set (colnames t)) (map (\<lambda>a. fst (snd a)) agg) in
           if missing \<noteq> [] then Inl (missing_columns_error missing)
           else if \<exists>r \<in> set (rows t). \<exists>p \<in> set ps. is_list (snd r ! p)
           then Inl (TypeError ''unhashable type: list'')
           else aggregate_groups lib t group_by ps agg (valid_rows ps (rows t))))"

text \<open>
  \<open>df.agg(agg_dict).reset_index()\<close>, the branch without group-by columns. Passed as one
  dictionary, \<open>agg_dict\<close> is read by pandas as \<open>{column: functions}\<close>: its keys, the result
  names, must all be columns of the table, else \<open>KeyError\<close>. What pandas computes when
  they all are is the library's.
\<close>

definition df_agg :: "pylib \<Rightarrow> table \<Rightarrow> agg_dict \<Rightarrow> exn + table" where
  "df_agg lib t agg =
     (let missing = filter (\<lambda>c. c \<notin> set (colnames t)) (map fst agg) in
      if missing \<noteq> [] then Inl (missing_columns_error missing)
      else frame_agg lib t agg)"

definition op_summarize :: "pylib \<Rightarrow> table \<Rightarrow> val list \<Rightarrow> kwargs \<Rightarrow> exn + table" where
  "op_summarize lib t args kw =
     (case args of
        [] \<Rightarrow> Inr t
      | a # _ \<Rightarrow>
          (case a of
             VStr agg_expr \<Rightarrow>
               (case summarize_parse agg_expr of (agg0, group_by) \<Rightarrow>
                  (let agg = (if agg0 = []
                              then foldl (\<lambda>d c. AList.update c (c, ''mean'') d) [] (numeric_cols t)
                              else agg0)
                   in if group_by \<noteq> [] then groupby_agg lib t group_by agg
                      else df_agg lib t agg))
           | _ \<Rightarrow> Inl (AttributeError ''object has no attribute split'')))"


subsection \<open>\<open>project\<close> (lines 265--282)\<close>

text \<open>The loop that flattens list arguments one level (also in \<open>sort\<close> and \<open>distinct\<close>).\<close>

definition flatten_args :: "val list \<Rightarrow> val list" where
  "flatten_args args = concat (map (\<lambda>a. case a of VList xs \<Rightarrow> xs | _ \<Rightarrow> [a]) args)"

text \<open>
  \<open>col in df.columns\<close>: column labels are strings, so no other scalar is one; a list is
  unhashable.
\<close>

definition is_column :: "table \<Rightarrow> val \<Rightarrow> exn + bool" where
  "is_column t c =
     (case c of
        VStr s \<Rightarrow> Inr (s \<in> set (colnames t))
      | VList _ \<Rightarrow> Inl (TypeError ''unhashable type: list'')
      | _ \<Rightarrow> Inr False)"

definition select_columns :: "table \<Rightarrow> nat list \<Rightarrow> table" where
  "select_columns t ps =
     \<lparr>columns = map (\<lambda>p. columns t ! p) ps,
      rows = map (\<lambda>r. (fst r, map (\<lambda>p. snd r ! p) ps)) (rows t)\<rparr>"

definition op_project :: "pylib \<Rightarrow> table \<Rightarrow> val list \<Rightarrow> kwargs \<Rightarrow> exn + table" where
  "op_project lib t args kw =
     (if args = [] then Inr t
      else (case sequence (map (is_column t) (flatten_args args)) of
              Inl e \<Rightarrow> Inl e
            | Inr present \<Rightarrow>
                (let existing_cols = map fst (filter snd (zip (flatten_args args) present)) in
                 if existing_cols \<noteq> []
                 then Inr (select_columns t
                        (concat (map (\<lambda>c. case c of VStr s \<Rightarrow>
                                         (case index_of s (colnames t) of Some p \<Rightarrow> [p] | None \<Rightarrow> [])
                                       | _ \<Rightarrow> []) existing_cols)))
                 else Inr t)))"

subsection \<open>\<open>extend\<close> (lines 284--314)\<close>

text \<open>
  \<open>+\<close> and \<open>*\<close> on two cells, as Python and NumPy compute them on scalars (a missing
  value is \<open>NaN\<close>); an integer times a string or a list repeats it.
\<close>

definition is_intlike :: "val \<Rightarrow> bool" where
  "is_intlike v = (case v of VInt _ \<Rightarrow> True | VBool _ \<Rightarrow> True | _ \<Rightarrow> False)"

definition int_of :: "val \<Rightarrow> int" where
  "int_of v = (case v of VInt i \<Rightarrow> i | VBool b \<Rightarrow> (if b then 1 else 0) | _ \<Rightarrow> 0)"

definition is_numeric :: "val \<Rightarrow> bool" where
  "is_numeric v = (num_of v \<noteq> None \<or> v = VNull)"

definition py_add :: "val \<Rightarrow> val \<Rightarrow> exn + val" where
  "py_add a b =
     (if is_intlike a \<and> is_intlike b then Inr (VInt (int_of a + int_of b))
      else if is_numeric a \<and> is_numeric b
      then (case (num_of a, num_of b) of (Some x, Some y) \<Rightarrow> Inr (VFloat (x + y)) | _ \<Rightarrow> Inr VNull)
      else (case (a, b) of
              (VStr s, VStr u) \<Rightarrow> Inr (VStr (s @ u))
            | (VList xs, VList ys) \<Rightarrow> Inr (VList (xs @ ys))
            | _ \<Rightarrow> Inl (TypeError ''unsupported operand type(s) for +'')))"

definition py_mul :: "val \<Rightarrow> val \<Rightarrow> exn + val" where
  "py_mul a b =
     (if is_intlike a \<and> is_intlike b then Inr (VInt (int_of a * int_of b))
      else if is_numeric a \<and> is_numeric b
      then (case (num_of a, num_of b) of (Some x, Some y) \<Rightarrow> Inr (VFloat (x * y)) | _ \<Rightarrow> Inr VNull)
      else (case (a, b) of
              (VStr s, _) \<Rightarrow> if is_intlike b then Inr (VStr (concat (replicate (nat (int_of b)) s)))
                             else Inl (TypeError ''cannot multiply sequence by non-int'')
            | (_, VStr s) \<Rightarrow> if is_intlike a then Inr (VStr (concat (replicate (nat (int_of a)) s)))
                             else Inl (TypeError ''cannot multiply sequence by non-int'')
            | (VList xs, _) \<Rightarrow> if is_intlike b then Inr (VList (concat (replicate (nat (int_of b)) xs)))
                               else Inl (TypeError ''cannot multiply sequence by non-int'')
            | (_, VList xs) \<Rightarrow> if is_intlike a then Inr (VList (concat (replicate (nat (int_of a)) xs)))
                               else Inl (TypeError ''cannot multiply sequence by non-int'')
            | _ \<Rightarrow> Inl (TypeError ''unsupported operand type(s) for *'')))"

text \<open>
  The accumulation \<open>sum(df[p] ...)\<close> (from 0) and the \<open>product *= df[p]\<close> loop (from 1):
  the accumulator is a scalar until the first column joins, and a scalar assigned to a
  column fills every row.
\<close>

fun accumulate :: "(val \<Rightarrow> val \<Rightarrow> exn + val) \<Rightarrow> val list \<Rightarrow> val list list \<Rightarrow> exn + val list" where
  "accumulate f acc [] = Inr acc"
| "accumulate f acc (col # cols) =
     (case sequence (map (\<lambda>(x, y). f x y) (zip acc col)) of
        Inl e \<Rightarrow> Inl e
      | Inr acc' \<Rightarrow> accumulate f acc' cols)"

definition present_columns :: "table \<Rightarrow> string list \<Rightarrow> val list list" where
  "present_columns t parts =
     concat (map (\<lambda>p. case index_of (str_strip p) (colnames t) of
                        Some i \<Rightarrow> [column_values t i] | None \<Rightarrow> []) parts)"

text \<open>
  The body of the \<open>try\<close>: the new column's cells, \<open>None\<close> when no branch of the
  \<open>if\<close>/\<open>elif\<close> chain applies (nothing is assigned), or the exception raised.
\<close>

definition eval_expression :: "pylib \<Rightarrow> table \<Rightarrow> string \<Rightarrow> exn + val list option" where
  "eval_expression lib t expression =
     (if str_startswith expression ''tolower(''
      then (case getitem t (butlast (drop 8 expression)) of
              Inl e \<Rightarrow> Inl e
            | Inr p \<Rightarrow> Inr (Some (map (\<lambda>x. VStr (str_lower (py_str lib x))) (column_values t p))))
      else if str_startswith expression ''toupper(''
      then (case getitem t (butlast (drop 8 expression)) of
              Inl e \<Rightarrow> Inl e
            | Inr p \<Rightarrow> Inr (Some (map (\<lambda>x. VStr (str_upper (py_str lib x))) (column_values t p))))
      else if CHR ''+'' \<in> set expression
      then (case accumulate py_add (replicate (length (rows t)) (VInt 0))
                   (present_columns t (str_split ''+'' expression)) of
              Inl e \<Rightarrow> Inl e | Inr vs \<Rightarrow> Inr (Some vs))
      else if CHR ''*'' \<in> set expression
      then (case accumulate py_mul (replicate (length (rows t)) (VInt 1))
                   (present_columns t (str_split ''*'' expression)) of
              Inl e \<Rightarrow> Inl e | Inr vs \<Rightarrow> Inr (Some vs))
      else Inr None)"

text \<open>\<open>result[col_name] = cells\<close>: an existing column is overwritten in place, a new one is appended.\<close>

definition set_column :: "table \<Rightarrow> string \<Rightarrow> val list \<Rightarrow> table" where
  "set_column t c vs =
     (case index_of c (colnames t) of
        Some p \<Rightarrow> \<lparr>columns = (columns t)[p := (c, infer_dtype vs)],
                   rows = map (\<lambda>(r, v). (fst r, (snd r)[p := v])) (zip (rows t) vs)\<rparr>
      | None \<Rightarrow> \<lparr>columns = columns t @ [(c, infer_dtype vs)],
                  rows = map (\<lambda>(r, v). (fst r, snd r @ [v])) (zip (rows t) vs)\<rparr>)"

text \<open>
  One turn of the loop over the arguments: \<open>t\<close> is the stage's input \<open>df\<close>, which every
  expression reads, and \<open>result\<close> the copy being extended. The bare \<open>except: pass\<close> turns
  every exception into "nothing assigned".
\<close>

definition extend_arg :: "pylib \<Rightarrow> table \<Rightarrow> table \<Rightarrow> val \<Rightarrow> table" where
  "extend_arg lib t result arg =
     (case arg of
        VStr a \<Rightarrow>
          if CHR ''='' \<in> set a
          then (case str_split1 ''='' a of (cn, ex) \<Rightarrow>
                  (case eval_expression lib t (str_strip ex) of
                     Inl e \<Rightarrow> result
                   | Inr None \<Rightarrow> result
                   | Inr (Some vs) \<Rightarrow> set_column result (str_strip cn) vs))
          else result
      | _ \<Rightarrow> result)"

definition op_extend :: "pylib \<Rightarrow> table \<Rightarrow> val list \<Rightarrow> kwargs \<Rightarrow> exn + table" where
  "op_extend lib t args kw = Inr (foldl (extend_arg lib t) t args)"


subsection \<open>\<open>sort\<close> (lines 316--331)\<close>

definition sort_key :: "nat list \<Rightarrow> int \<times> val list \<Rightarrow> val list" where
  "sort_key ps r = map (\<lambda>p. snd r ! p) ps"

definition row_le :: "nat list \<Rightarrow> bool \<Rightarrow> int \<times> val list \<Rightarrow> int \<times> val list \<Rightarrow> bool" where
  "row_le ps ascending r1 r2 = lex_le ascending (sort_key ps r1) (sort_key ps r2)"

text \<open>
  pandas' \<open>nargsort\<close>, which sorts by a single column: the positions of the non-missing
  keys in the order NumPy's default \<open>argsort\<close> gives (for a descending sort the keys are
  reversed, sorted and the result reversed), then the positions of the missing keys.
\<close>

definition nargsort :: "pylib \<Rightarrow> val list \<Rightarrow> bool \<Rightarrow> exn + nat list" where
  "nargsort lib items ascending =
     (let idx = [0..<length items];
          non_nan_idx = filter (\<lambda>i. items ! i \<noteq> VNull) idx;
          nan_idx = filter (\<lambda>i. items ! i = VNull) idx;
          non_nans = map (\<lambda>i. items ! i) non_nan_idx
      in if \<not> comparable non_nans then Inl (TypeError ''values of the column cannot be ordered'')
         else Inr ((if ascending then map (\<lambda>j. non_nan_idx ! j) (np_argsort lib non_nans)
                    else rev (map (\<lambda>j. rev non_nan_idx ! j) (np_argsort lib (rev non_nans))))
                   @ nan_idx))"

text \<open>
  \<open>df.sort_values(by=columns, ascending=ascending)\<close>: no column leaves the table as it
  is, one column goes through \<open>nargsort\<close> with the default \<open>kind='quicksort'\<close>, several
  columns through pandas' stable lexicographic sort.
\<close>

definition sort_values :: "pylib \<Rightarrow> table \<Rightarrow> val list \<Rightarrow> bool \<Rightarrow> exn + table" where
  "sort_values lib t by ascending =
     (case sequence (map (\<lambda>b. case b of VStr s \<Rightarrow> getitem t s | _ \<Rightarrow> Inl (KeyError (py_str lib b))) by) of
        Inl e \<Rightarrow> Inl e
      | Inr ps \<Rightarrow>
          (case ps of
             [] \<Rightarrow> Inr t
           | [p] \<Rightarrow>
               (case nargsort lib (column_values t p) ascending of
                  Inl e \<Rightarrow> Inl e
                | Inr indexer \<Rightarrow> Inr (t\<lparr>rows := map (\<lambda>i. rows t ! i) indexer\<rparr>))
           | _ \<Rightarrow>
               if \<exists>p \<in> set ps. \<not> comparable (filter (\<lambda>v. v \<noteq> VNull) (column_values t p))
               then Inl (TypeError ''values of a column cannot be ordered'')
               else Inr (t\<lparr>rows := sort_by (row_le ps ascending) (rows t)\<rparr>)))"

text \<open>\<open>df.sort_index()\<close>: nothing to do when the labels already ascend, else NumPy's \<open>argsort\<close>.\<close>

definition sort_index :: "pylib \<Rightarrow> table \<Rightarrow> table" where
  "sort_index lib t =
     (if sorted (labels t) then t
      else t\<lparr>rows := map (\<lambda>i. rows t ! i) (np_argsort lib (map VInt (labels t)))\<rparr>)"

definition op_sort :: "pylib \<Rightarrow> table \<Rightarrow> val list \<Rightarrow> kwargs \<Rightarrow> exn + table" where
  "op_sort lib t args kw =
     (if args = [] then Inr (sort_index lib t)
      else (case (case map_of kw ''order'' of None \<Rightarrow> VStr ''asc'' | Some v \<Rightarrow> v) of
              VStr order \<Rightarrow> sort_values lib t (flatten_args args) (str_lower order \<noteq> ''desc'')
            | _ \<Rightarrow> Inl (AttributeError ''object has no attribute lower'')))"

subsection \<open>\<open>take\<close>, \<open>count\<close>, \<open>distinct\<close>, \<open>sample\<close>, \<open>top\<close> (lines 333--369)\<close>

text \<open>\<open>int(x)\<close> on a value.\<close>

definition py_int_of :: "val \<Rightarrow> exn + int" where
  "py_int_of v =
     (case v of
        VInt i \<Rightarrow> Inr i
      | VBool b \<Rightarrow> Inr (if b then 1 else 0)
      | VFloat r \<Rightarrow> Inr (if r \<ge> 0 then \<lfloor>r\<rfloor> else \<lceil>r\<rceil>)
      | VStr s \<Rightarrow> (case py_int s of Some i \<Rightarrow> Inr i
                   | None \<Rightarrow> Inl (ValueError ''invalid literal for int() with base 10''))
      | _ \<Rightarrow> Inl (TypeError ''int() argument must be a string or a real number''))"

text \<open>\<open>df.head(n)\<close>: a negative \<open>n\<close> drops the last \<open>-n\<close> rows.\<close>

definition head :: "int \<Rightarrow> table \<Rightarrow> table" where
  "head n t = t\<lparr>rows := (if n \<ge> 0 then take (nat n) (rows t)
                         else take (length (rows t) - nat (- n)) (rows t))\<rparr>"

definition op_take :: "pylib \<Rightarrow> table \<Rightarrow> val list \<Rightarrow> kwargs \<Rightarrow> exn + table" where
  "op_take lib t args kw =
     (case args of
        [] \<Rightarrow> Inr t
      | a # _ \<Rightarrow> (case py_int_of a of Inl e \<Rightarrow> Inl e | Inr n \<Rightarrow> Inr (head n t)))"

definition op_count :: "pylib \<Rightarrow> table \<Rightarrow> val list \<Rightarrow> kwargs \<Rightarrow> exn + table" where
  "op_count lib t args kw =
     Inr \<lparr>columns = [(''count'', Int64)], rows = [(0, [VInt (int (length (rows t)))])]\<rparr>"

text \<open>\<open>drop_duplicates\<close> keeps the first row of every key; missing values count as equal.\<close>

fun keep_first :: "('a \<Rightarrow> 'k) \<Rightarrow> 'k list \<Rightarrow> 'a list \<Rightarrow> 'a list" where
  "keep_first key seen [] = []"
| "keep_first key seen (r # rs) =
     (if key r \<in> set seen then keep_first key seen rs
      else r # keep_first key (key r # seen) rs)"

definition drop_duplicates :: "table \<Rightarrow> nat list \<Rightarrow> exn + table" where
  "drop_duplicates t ps =
     (if \<exists>r \<in> set (rows t). \<exists>p \<in> set ps. is_list (snd r ! p)
      then Inl (TypeError ''unhashable type: list'')
      else Inr (t\<lparr>rows := keep_first (group_keys ps) [] (rows t)\<rparr>))"

definition op_distinct :: "pylib \<Rightarrow> table \<Rightarrow> val list \<Rightarrow> kwargs \<Rightarrow> exn + table" where
  "op_distinct lib t args kw =
     (if args \<noteq> []
      then (case sequence (map (\<lambda>b. case b of VStr s \<Rightarrow> getitem t s | _ \<Rightarrow> Inl (KeyError (py_str lib b)))
                               (flatten_args args)) of
              Inl e \<Rightarrow> Inl e
            | Inr ps \<Rightarrow> drop_duplicates t ps)
      else drop_duplicates t [0..<length (columns t)])"

text \<open>\<open>df.sample\<close>: the rows at the positions the library's random choice returns.\<close>

definition sample_rows :: "pylib \<Rightarrow> table \<Rightarrow> nat \<Rightarrow> table" where
  "sample_rows lib t k =
     t\<lparr>rows := map (\<lambda>i. rows t ! i)
                   (filter (\<lambda>i. i < length (rows t)) (sample_positions lib (length (rows t)) k))\<rparr>"

definition round_half_even_tenth :: "nat \<Rightarrow> nat" where
  "round_half_even_tenth n =
     (let q = n div 10; r = n mod 10 in
      if r < 5 then q else if r > 5 then q + 1 else if even q then q else q + 1)"

definition op_sample :: "pylib \<Rightarrow> table \<Rightarrow> val list \<Rightarrow> kwargs \<Rightarrow> exn + table" where
  "op_sample lib t args kw =
     (case args of
        [] \<Rightarrow> Inr (sample_rows lib t (round_half_even_tenth (length (rows t))))
      | a # _ \<Rightarrow>
          (case py_int_of a of
             Inl e \<Rightarrow> Inl e
           | Inr n \<Rightarrow>
               if min n (int (length (rows t))) < 0
               then Inl (ValueError ''A negative number of rows requested'')
               else Inr (sample_rows lib t (nat (min n (int (length (rows t))))))))"

definition op_top :: "pylib \<Rightarrow> table \<Rightarrow> val list \<Rightarrow> kwargs \<Rightarrow> exn + table" where
  "op_top lib t args kw =
     (case args of
        a # column # _ \<Rightarrow>
          (case py_int_of a of
             Inl e \<Rightarrow> Inl e
           | Inr n \<Rightarrow>
               (case is_column t column of
                  Inl e \<Rightarrow> Inl e
                | Inr False \<Rightarrow> Inr (head 10 t)
                | Inr True \<Rightarrow>
                    (case (case map_of kw ''by'' of None \<Rightarrow> VStr ''desc'' | Some v \<Rightarrow> v) of
                       VStr by \<Rightarrow>
                         (case index_of (py_str lib column) (colnames t) of
                            None \<Rightarrow> Inr (head 10 t)
                          | Some p \<Rightarrow>
                              if snd (columns t ! p) = Object
                              then Inl (TypeError ''cannot use nlargest or nsmallest with dtype object'')
                              else Inr (t\<lparr>rows := map (\<lambda>i. rows t ! i)
                                         (filter (\<lambda>i. i < length (rows t))
                                            (nselect lib (str_lower by = ''desc'') n (column_values t p)))\<rparr>))
                     | _ \<Rightarrow> Inl (AttributeError ''object has no attribute lower''))))
      | _ \<Rightarrow> Inr (head 10 t))"

subsection \<open>\<open>make_list\<close>, \<open>mv_expand\<close>, \<open>join\<close>, \<open>union\<close> (lines 371--392)\<close>

definition op_make_list :: "pylib \<Rightarrow> table \<Rightarrow> val list \<Rightarrow> kwargs \<Rightarrow> exn + table" where
  "op_make_list lib t args kw =
     (case args of
        [] \<Rightarrow> Inr t
      | column # _ \<Rightarrow>
          (case is_column t column of
             Inl e \<Rightarrow> Inl e
           | Inr False \<Rightarrow> Inr t
           | Inr True \<Rightarrow>
               (case index_of (py_str lib column) (colnames t) of
                  None \<Rightarrow> Inr t
                | Some p \<Rightarrow>
                    Inr \<lparr>columns = [(py_str lib column @ ''_list'', Object)],
                         rows = [(0, [VList (column_values t p)])]\<rparr>)))"

text \<open>\<open>df.explode(column)\<close>: a list cell becomes one row per element (an empty list one
  row with a missing value), each under the label of the row it came from.\<close>

definition explode_row :: "nat \<Rightarrow> int \<times> val list \<Rightarrow> (int \<times> val list) list" where
  "explode_row p r =
     (case snd r ! p of
        VList xs \<Rightarrow> if xs = [] then [(fst r, (snd r)[p := VNull])]
                    else map (\<lambda>x. (fst r, (snd r)[p := x])) xs
      | _ \<Rightarrow> [r])"

definition op_mv_expand :: "pylib \<Rightarrow> table \<Rightarrow> val list \<Rightarrow> kwargs \<Rightarrow> exn + table" where
  "op_mv_expand lib t args kw =
     (case args of
        [] \<Rightarrow> Inr t
      | column # _ \<Rightarrow>
          (case is_column t column of
             Inl e \<Rightarrow> Inl e
           | Inr False \<Rightarrow> Inr t
           | Inr True \<Rightarrow>
               (case index_of (py_str lib column) (colnames t) of
                  None \<Rightarrow> Inr t
                | Some p \<Rightarrow>
                    if \<exists>v \<in> set (column_values t p). is_list v
                    then Inr \<lparr>columns = (columns t)[p := (fst (columns t ! p), Object)],
                              rows = concat (map (explode_row p) (rows t))\<rparr>
                    else Inr t)))"

definition op_join :: "pylib \<Rightarrow> table \<Rightarrow> val list \<Rightarrow> kwargs \<Rightarrow> exn + table" where
  "op_join lib t args kw = Inr t"

definition op_union :: "pylib \<Rightarrow> table \<Rightarrow> val list \<Rightarrow> kwargs \<Rightarrow> exn + table" where
  "op_union lib t args kw = Inr t"


section \<open>The engine and the pipeline executor (lines 7--51)\<close>

text \<open>
  Frames are objects: the heap lists them and a reference is a position in it.
  \<open>df.copy()\<close> allocates a new frame with the same content. A stage operator is called
  with a reference \<open>df\<close> and returns a reference: \<open>df\<close> itself where the source says
  \<open>return df\<close>, a newly allocated frame where it returns the value of a pandas call, which
  is a new object. \<open>_extend\<close> is the one operator that writes a frame, its own copy.
\<close>

type_synonym heap = "table list"

type_synonym handler = "heap \<Rightarrow> nat \<Rightarrow> val list \<Rightarrow> kwargs \<Rightarrow> (exn + nat) \<times> heap"

record engine =
  df :: nat
  table_name :: string
  functions_map :: "(string \<times> handler) list"

definition copy_frame :: "heap \<Rightarrow> nat \<Rightarrow> nat \<times> heap" where
  "copy_frame h r = (length h, h @ [h ! r])"

text \<open>
  An operator that writes no frame: \<open>f\<close> is the table it computes from the content of
  \<open>df\<close>, and \<open>returns_df\<close> tells the paths that end in \<open>return df\<close>.
\<close>

definition bound_method ::
  "(table \<Rightarrow> val list \<Rightarrow> kwargs \<Rightarrow> exn + table) \<Rightarrow> (table \<Rightarrow> val list \<Rightarrow> kwargs \<Rightarrow> bool) \<Rightarrow> handler" where
  "bound_method f returns_df h r args kw =
     (case f (h ! r) args kw of
        Inl x \<Rightarrow> (Inl x, h)
      | Inr t \<Rightarrow> if returns_df (h ! r) args kw then (Inr r, h) else (Inr (length h), h @ [t]))"

text \<open>\<open>_where\<close> returns \<open>df\<close> without arguments (line 150) and for a condition that is no string (line 220).\<close>

definition where_returns_df :: "table \<Rightarrow> val list \<Rightarrow> kwargs \<Rightarrow> bool" where
  "where_returns_df t args kw =
     (case args of [] \<Rightarrow> True | condition # _ \<Rightarrow> (case condition of VStr c \<Rightarrow> False | _ \<Rightarrow> True))"

text \<open>\<open>_summarize\<close> (line 225) and \<open>_take\<close> (line 337) return \<open>df\<close> without arguments.\<close>

definition summarize_returns_df :: "table \<Rightarrow> val list \<Rightarrow> kwargs \<Rightarrow> bool" where
  "summarize_returns_df t args kw = (args = [])"

definition take_returns_df :: "table \<Rightarrow> val list \<Rightarrow> kwargs \<Rightarrow> bool" where
  "take_returns_df t args kw = (args = [])"

text \<open>\<open>_project\<close> returns \<open>df\<close> without arguments (line 267) and when no listed column exists (line 282).\<close>

definition project_returns_df :: "table \<Rightarrow> val list \<Rightarrow> kwargs \<Rightarrow> bool" where
  "project_returns_df t args kw =
     (args = [] \<or>
      (case sequence (map (is_column t) (flatten_args args)) of
         Inl e \<Rightarrow> False
       | Inr present \<Rightarrow> map fst (filter snd (zip (flatten_args args) present)) = []))"

text \<open>\<open>_make_list\<close> (line 376) and \<open>_mv_expand\<close> (line 383) return \<open>df\<close> unless their \<open>if\<close>s hold.\<close>

definition make_list_returns_df :: "table \<Rightarrow> val list \<Rightarrow> kwargs \<Rightarrow> bool" where
  "make_list_returns_df t args kw =
     (case args of [] \<Rightarrow> True | column # _ \<Rightarrow> is_column t column = Inr False)"

definition mv_expand_returns_df :: "pylib \<Rightarrow> table \<Rightarrow> val list \<Rightarrow> kwargs \<Rightarrow> bool" where
  "mv_expand_returns_df lib t args kw =
     (case args of
        [] \<Rightarrow> True
      | column # _ \<Rightarrow>
          (case is_column t column of
             Inl e \<Rightarrow> False
           | Inr False \<Rightarrow> True
           | Inr True \<Rightarrow>
               (case index_of (py_str lib column) (colnames t) of
                  None \<Rightarrow> True
                | Some p \<Rightarrow> \<not> (\<exists>v \<in> set (column_values t p). is_list v))))"

text \<open>\<open>_join\<close> and \<open>_union\<close> return \<open>df\<close>; the other operators return the value of a pandas call.\<close>

definition always_df :: "table \<Rightarrow> val list \<Rightarrow> kwargs \<Rightarrow> bool" where
  "always_df t args kw = True"

definition never_df :: "table \<Rightarrow> val list \<Rightarrow> kwargs \<Rightarrow> bool" where
  "never_df t args kw = False"

text \<open>
  \<open>_extend\<close> (lines 284--314): \<open>result = df.copy()\<close>, then every argument reads \<open>df\<close> and
  assigns its column in \<open>result\<close>, in place.
\<close>

definition method_extend :: "pylib \<Rightarrow> handler" where
  "method_extend lib h r args kw =
     (case copy_frame h r of (result, h1) \<Rightarrow>
        (Inr result,
         foldl (\<lambda>h' arg. h'[result := extend_arg lib (h' ! r) (h' ! result) arg]) h1 args))"

definition initialize_functions :: "pylib \<Rightarrow> (string \<times> handler) list" where
  "initialize_functions lib =
     [(''where'', bound_method (op_where lib) where_returns_df),
      (''summarize'', bound_method (op_summarize lib) summarize_returns_df),
      (''project'', bound_method (op_project lib) project_returns_df),
      (''extend'', method_extend lib),
      (''sort'', bound_method (op_sort lib) never_df),
      (''take'', bound_method (op_take lib) take_returns_df),
      (''count'', bound_method (op_count lib) never_df),
      (''distinct'', bound_method (op_distinct lib) never_df),
      (''join'', bound_method (op_join lib) always_df),
      (''union'', bound_method (op_union lib) always_df),
      (''sample'', bound_method (op_sample lib) never_df),
      (''top'', bound_method (op_top lib) never_df),
      (''make_list'', bound_method (op_make_list lib) make_list_returns_df),
      (''mv_expand'', bound_method (op_mv_expand lib) (mv_expand_returns_df lib))]"

text \<open>\<open>KQLEngine(df, table_name)\<close>: the engine holds a copy of the frame it is given.\<close>

definition new_engine :: "pylib \<Rightarrow> heap \<Rightarrow> nat \<Rightarrow> string \<Rightarrow> engine \<times> heap" where
  "new_engine lib h r name =
     (case copy_frame h r of (r', h') \<Rightarrow>
        (\<lparr>df = r', table_name = name, functions_map = initialize_functions lib\<rparr>, h'))"

text \<open>
  The call \<open>self.functions[func_name](result, *args, **kwargs)\<close> of a bound method with
  the signature \<open>(self, df, *args, **kwargs)\<close>: a named argument \<open>self\<close> or \<open>df\<close> collides
  with a positional one and Python raises \<open>TypeError\<close>.
\<close>

definition call_handler :: "handler \<Rightarrow> heap \<Rightarrow> nat \<Rightarrow> val list \<Rightarrow> kwargs \<Rightarrow> (exn + nat) \<times> heap" where
  "call_handler f h r args kw =
     (if map_of kw ''self'' \<noteq> None \<or> map_of kw ''df'' \<noteq> None
      then (Inl (TypeError ''got multiple values for argument''), h)
      else f h r args kw)"

text \<open>
  The \<open>for\<close> loop of \<open>execute_query\<close>; \<open>r\<close> is the frame \<open>result\<close> names, and each stage
  rebinds \<open>result\<close> to the reference its operator returns.
\<close>

fun run_operations :: "engine \<Rightarrow> heap \<Rightarrow> nat \<Rightarrow> operation list \<Rightarrow> (exn + nat) \<times> heap" where
  "run_operations e h r [] = (Inr r, h)"
| "run_operations e h r (operation # operations) =
     (case map_of (functions_map e) (op_function operation) of
        Some f \<Rightarrow>
          (case call_handler f h r (op_args operation) (op_kwargs operation) of
             (Inl x, h') \<Rightarrow> (Inl x, h')
           | (Inr r', h') \<Rightarrow> run_operations e h' r' operations)
      | None \<Rightarrow> (Inl (ValueError (''Unknown function: '' @ op_function operation)), h))"

text \<open>
  \<open>execute_query\<close>: \<open>result = self.df.copy()\<close>, then the loop. Every exception raised
  inside the \<open>try\<close>, the \<open>ValueError\<close> for an unknown function included, is caught and
  raised again as \<open>ValueError("Query execution error: " + str(e))\<close>.
\<close>

definition execute_query :: "engine \<Rightarrow> heap \<Rightarrow> string \<Rightarrow> (exn + nat) \<times> heap" where
  "execute_query e h query =
     (let operations = parse_query query in
      case copy_frame h (df e) of (r, h1) \<Rightarrow>
        (case run_operations e h1 r operations of
           (Inl x, h2) \<Rightarrow> (Inl (ValueError (''Query execution error: '' @ exn_str x)), h2)
         | (Inr r', h2) \<Rightarrow> (Inr r', h2)))"

text \<open>The table a successful query returns.\<close>

definition query_result :: "engine \<Rightarrow> heap \<Rightarrow> string \<Rightarrow> exn + table" where
  "query_result e h query =
     (case execute_query e h query of
        (Inl x, h') \<Rightarrow> Inl x
      | (Inr r, h') \<Rightarrow> Inr (h' ! r))"

section \<open>A reference library and example tables\<close>

text \<open>
  One library for concrete evaluations: a literal, case-insensitive substring search in
  place of the regular-expression search, a stable insertion sort as \<open>argsort\<close>, the first
  rows as the sample. The theorems below do not depend on it.
\<close>

definition lib0 :: pylib where
  "lib0 = \<lparr>float_repr = (\<lambda>r. ''0.0''),
           regex_search = (\<lambda>pat s. Inr (str_contains (str_lower pat) (str_lower s))),
           series_reduce = (\<lambda>f vs. Inr VNull),
           frame_agg = (\<lambda>t d. Inr t),
           np_argsort = (\<lambda>ks. map snd (sort_by (\<lambda>a b. key_le (fst a) (fst b)) (zip ks [0..<length ks]))),
           sample_positions = (\<lambda>n k. [0..<k]),
           nselect = (\<lambda>largest n ks. [])\<rparr>"

text \<open>Three rows \<open>x = 2, NaN, 1\<close> with a text column.\<close>

definition table_x :: table where
  "table_x = \<lparr>columns = [(''x'', Float64), (''s'', Object)],
              rows = [(0, [VFloat 2, VStr ''a'']), (1, [VNull, VStr ''b'']), (2, [VFloat 1, VStr ''a''])]\<rparr>"

text \<open>Two rows with a group column \<open>g\<close>, missing in the first row, and a value column \<open>v\<close>.\<close>

definition table_gv :: table where
  "table_gv = \<lparr>columns = [(''g'', Float64), (''v'', Int64)],
               rows = [(0, [VNull, VInt 10]), (1, [VFloat 1, VInt 20])]\<rparr>"

text \<open>An engine over \<open>table_x\<close>: the heap holds the caller's frame and the engine's copy.\<close>

definition engine_x :: engine where
  "engine_x = fst (new_engine lib0 [table_x] 0 ''Data'')"

definition heap_x :: heap where
  "heap_x = snd (new_engine lib0 [table_x] 0 ''Data'')"

definition engine_gv :: engine where
  "engine_gv = fst (new_engine lib0 [table_gv] 0 ''Data'')"

definition heap_gv :: heap where
  "heap_gv = snd (new_engine lib0 [table_gv] 0 ''Data'')"


section \<open>Notions the properties are stated with\<close>

text \<open>
  The classified sub-conditions of a condition string, in order (a sub-condition that no
  branch of the chain recognises is skipped by \<open>_where\<close> and is not among them).
\<close>

definition predicates :: "string \<Rightarrow> (wop \<times> string \<times> string) list" where
  "predicates c = List.map_filter (\<lambda>cond. classify (str_strip cond)) (sub_conditions c)"

text \<open>
  Row \<open>i\<close> of the table satisfies a classified sub-condition: the comparison of its cell
  with the literal (for a list literal, with the literal's \<open>i\<close>-th element) gives true.
\<close>

definition holds_at :: "pylib \<Rightarrow> table \<Rightarrow> wop \<times> string \<times> string \<Rightarrow> nat \<Rightarrow> bool" where
  "holds_at lib t p i =
     (case p of (w, col, vtext) \<Rightarrow>
        (case index_of col (colnames t) of
           None \<Rightarrow> False
         | Some pos \<Rightarrow>
             (let x = snd (rows t ! i) ! pos; v = parse_value vtext in
              (if w = OpContains then regex_search lib (py_str lib v) (py_str lib x)
               else if w = OpStartswith then Inr (str_startswith (py_str lib x) (py_str lib v))
               else if w = OpEndswith then Inr (str_endswith (py_str lib x) (py_str lib v))
               else elem_cmp w x (case v of VList items \<Rightarrow> items ! i | _ \<Rightarrow> v)) = Inr True)))"

text \<open>The boolean column of a classified sub-condition is true at an index label.\<close>

definition true_at :: "pylib \<Rightarrow> table \<Rightarrow> wop \<times> string \<times> string \<Rightarrow> nat \<Rightarrow> bool" where
  "true_at lib t p j =
     (case cond_series lib t p of
        Inl e \<Rightarrow> False
      | Inr series \<Rightarrow> map_of (zip (labels t) series) (int j) = Some True)"

text \<open>
  An \<open>extend\<close> argument \<open>name=expression\<close> whose evaluation assigns nothing: it raises, or
  the expression has none of the supported shapes.
\<close>

definition extend_fails :: "pylib \<Rightarrow> table \<Rightarrow> val \<Rightarrow> bool" where
  "extend_fails lib t arg =
     (case arg of
        VStr a \<Rightarrow>
          CHR ''='' \<in> set a \<and>
          (case eval_expression lib t (str_strip (snd (str_split1 ''='' a))) of
             Inl e \<Rightarrow> True
           | Inr None \<Rightarrow> True
           | Inr (Some vs) \<Rightarrow> False)
      | _ \<Rightarrow> False)"

text \<open>The classes of the key order (numbers, strings, the rest) and the text of a string key.\<close>

definition key_rank :: "val \<Rightarrow> nat" where
  "key_rank v = (case v of VBool _ \<Rightarrow> 0 | VInt _ \<Rightarrow> 0 | VFloat _ \<Rightarrow> 0 | VStr _ \<Rightarrow> 1 | _ \<Rightarrow> 2)"

definition str_of :: "val \<Rightarrow> string" where
  "str_of v = (case v of VStr s \<Rightarrow> s | _ \<Rightarrow> [])"

text \<open>No group-key cell of the row is missing.\<close>

definition has_key :: "table \<Rightarrow> string list \<Rightarrow> int \<times> val list \<Rightarrow> bool" where
  "has_key t group_by r =
     (\<forall>c \<in> set group_by. case index_of c (colnames t) of None \<Rightarrow> True | Some p \<Rightarrow> snd r ! p \<noteq> VNull)"

text \<open>The non-missing values of the column at position \<open>p\<close>, in row order.\<close>

definition present_keys :: "table \<Rightarrow> nat \<Rightarrow> val list" where
  "present_keys t p = filter (\<lambda>x. x \<noteq> VNull) (column_values t p)"


text \<open>
  A handler that keeps to its own frames: called with the frame \<open>r\<close>, it leaves every other
  frame that exists as it is (it may write \<open>r\<close> and allocate), and the reference it returns
  is \<open>r\<close> or a frame that it allocated.
\<close>

definition local_handler :: "handler \<Rightarrow> bool" where
  "local_handler f =
     (\<forall>h r args kw. r < length h \<longrightarrow>
        (case f h r args kw of
           (res, h') \<Rightarrow>
             length h \<le> length h' \<and>
             (\<forall>a < length h. a \<noteq> r \<longrightarrow> h' ! a = h ! a) \<and>
             (case res of Inl x \<Rightarrow> True | Inr r' \<Rightarrow> r' < length h' \<and> (r' = r \<or> length h \<le> r'))))"

text \<open>
  What \<open>sort\<close> takes from NumPy's \<open>argsort\<close>: on keys it can order it returns the positions
  \<open>0, ..., n - 1\<close>, each once, in an order that puts the keys in ascending order. Nothing
  is said of the order of equal keys.
\<close>

definition argsort_ok :: "pylib \<Rightarrow> bool" where
  "argsort_ok lib =
     (\<forall>ks. comparable ks \<longrightarrow>
        mset (np_argsort lib ks) = mset [0..<length ks] \<and>
        sorted_wrt key_le (map (\<lambda>i. ks ! i) (np_argsort lib ks)))"

text \<open>The positions of the columns a \<open>sort\<close> stage lists, and its direction.\<close>

definition sort_columns :: "table \<Rightarrow> val list \<Rightarrow> nat list" where
  "sort_columns t args =
     List.map_filter (\<lambda>b. case b of VStr s \<Rightarrow> index_of s (colnames t) | _ \<Rightarrow> None) (flatten_args args)"

definition sort_ascending :: "kwargs \<Rightarrow> bool" where
  "sort_ascending kw =
     (case map_of kw ''order'' of Some (VStr order) \<Rightarrow> str_lower order \<noteq> ''desc'' | _ \<Rightarrow> True)"

text \<open>The key of a row under Python's equality.\<close>

definition canon_key :: "nat list \<Rightarrow> int \<times> val list \<Rightarrow> val list" where
  "canon_key ps r = map canon (sort_key ps r)"

section \<open>Theorems\<close>

subsection \<open>Auxiliary facts\<close>

lemma sequence_Inr_iff: "sequence xs = Inr ys \<longleftrightarrow> xs = map Inr ys"
proof (induction xs arbitrary: ys)
  case Nil
  show ?case by auto
next
  case (Cons x xs)
  show ?case
  proof (cases x)
    case (Inl e)
    then show ?thesis by (cases ys) auto
  next
    case (Inr v)
    show ?thesis
    proof (cases "sequence xs")
      case (Inl e)
      with Cons.IH have "\<And>zs. xs \<noteq> map Inr zs" by auto
      with Inl Inr show ?thesis by (cases ys) auto
    next
      case r: (Inr vs)
      from Cons.IH[of vs] r have "xs = map Inr vs" by simp
      with r Inr show ?thesis by (cases ys) auto
    qed
  qed
qed

lemma sequence_Inl_iff: "(\<exists>e. sequence xs = Inl e) \<longleftrightarrow> (\<exists>e. Inl e \<in> set xs)"
proof (induction xs)
  case Nil
  show ?case by simp
next
  case (Cons x xs)
  show ?case
  proof (cases x)
    case (Inl e)
    then show ?thesis by auto
  next
    case (Inr v)
    with Cons.IH show ?thesis by (cases "sequence xs") auto
  qed
qed

lemma index_of_None_iff: "index_of x xs = None \<longleftrightarrow> x \<notin> set xs"
  by (induction xs) auto

lemma index_of_Some: "index_of x xs = Some p \<Longrightarrow> p < length xs \<and> xs ! p = x"
  by (induction xs arbitrary: p) (auto split: if_splits)

lemma filter_as_positions:
  "filter P xs = map (\<lambda>i. xs ! i) (filter (\<lambda>i. P (xs ! i)) [0..<length xs])"
proof -
  have "filter P (map (\<lambda>i. xs ! i) [0..<length xs]) =
        map (\<lambda>i. xs ! i) (filter (P \<circ> (\<lambda>i. xs ! i)) [0..<length xs])"
    by (rule filter_map)
  then show ?thesis by (simp add: map_nth comp_def)
qed


subsection \<open>The order of keys\<close>

lemma str_le_total: "str_le s u \<or> str_le u s"
  by (induction s u rule: str_le.induct) auto

lemma str_le_trans: "str_le s u \<Longrightarrow> str_le u v \<Longrightarrow> str_le s v"
proof (induction s u arbitrary: v rule: str_le.induct)
  case (1 ys)
  show ?case by simp
next
  case (2 x xs)
  then show ?case by simp
next
  case (3 x xs y ys)
  then show ?case by (cases v) auto
qed

lemma str_le_antisym: "str_le s u \<Longrightarrow> str_le u s \<Longrightarrow> s = u"
proof (induction s u rule: str_le.induct)
  case (1 ys)
  then show ?case by (cases ys) auto
next
  case (2 x xs)
  then show ?case by simp
next
  case (3 x xs y ys)
  then show ?case by auto
qed

lemma num_of_canon: "num_of (canon v) = num_of v"
  by (cases v) (auto simp: canon_def)

lemma canon_eq_iff:
  "canon a = canon b \<longleftrightarrow> num_of a = num_of b \<and> (num_of a = None \<longrightarrow> a = b)"
proof (cases "num_of a")
  case None
  then have ca: "canon a = a" by (simp add: canon_def)
  show ?thesis
  proof (cases "num_of b")
    case n: None
    then show ?thesis using None ca by (simp add: canon_def)
  next
    case (Some y)
    then have "num_of (canon b) = Some y" by (simp add: num_of_canon)
    with None ca Some show ?thesis by auto
  qed
next
  case (Some x)
  show ?thesis
  proof (cases "num_of b")
    case None
    then have "canon b = b" by (simp add: canon_def)
    moreover have "num_of (canon a) = Some x" using Some by (simp add: num_of_canon)
    ultimately show ?thesis using None Some by auto
  next
    case s: (Some y)
    have "canon a = canon b \<longleftrightarrow> x = y"
    proof
      assume "canon a = canon b"
      then have "num_of (canon a) = num_of (canon b)" by simp
      then show "x = y" using Some s by (simp add: num_of_canon)
    next
      assume "x = y"
      then show "canon a = canon b" using Some s by (simp add: canon_def)
    qed
    then show ?thesis using Some s by simp
  qed
qed

lemma canon_idem: "canon (canon v) = canon v"
  by (simp add: canon_eq_iff num_of_canon) (simp add: canon_def)

text \<open>The three classes of \<open>key_le\<close>: numbers, strings, everything else.\<close>

lemma key_le_rank:
  "key_le a b \<longleftrightarrow>
     key_rank a < key_rank b \<or>
     (key_rank a = key_rank b \<and>
      (key_rank a = 0 \<longrightarrow> the (num_of a) \<le> the (num_of b)) \<and>
      (key_rank a = 1 \<longrightarrow> str_le (str_of a) (str_of b)))"
  by (cases a; cases b) (simp_all add: key_le_def key_rank_def str_of_def)


lemma key_le_total: "key_le a b \<or> key_le b a"
  unfolding key_le_rank using str_le_total[of "str_of a" "str_of b"] by linarith

lemma key_le_trans: "key_le a b \<Longrightarrow> key_le b c \<Longrightarrow> key_le a c"
proof -
  assume ab: "key_le a b" and bc: "key_le b c"
  from ab bc have r: "key_rank a \<le> key_rank b" "key_rank b \<le> key_rank c"
    unfolding key_le_rank by linarith+
  show ?thesis
  proof (cases "key_rank a < key_rank c")
    case True
    then show ?thesis unfolding key_le_rank by blast
  next
    case False
    with r have e: "key_rank a = key_rank b" "key_rank b = key_rank c" by simp_all
    from ab e have 1: "key_rank a = 0 \<longrightarrow> the (num_of a) \<le> the (num_of b)"
      and 2: "key_rank a = 1 \<longrightarrow> str_le (str_of a) (str_of b)"
      unfolding key_le_rank by simp_all
    from bc e have 3: "key_rank a = 0 \<longrightarrow> the (num_of b) \<le> the (num_of c)"
      and 4: "key_rank a = 1 \<longrightarrow> str_le (str_of b) (str_of c)"
      unfolding key_le_rank by simp_all
    from 1 3 have 5: "key_rank a = 0 \<longrightarrow> the (num_of a) \<le> the (num_of c)" by auto
    from 2 4 have 6: "key_rank a = 1 \<longrightarrow> str_le (str_of a) (str_of c)"
      using str_le_trans by blast
    from e 5 6 show ?thesis unfolding key_le_rank by simp
  qed
qed

lemma key_rank_canon: "key_rank (canon a) = key_rank a"
  by (cases a) (auto simp: canon_def key_rank_def)

lemma str_of_canon: "str_of (canon a) = str_of a"
  by (cases a) (auto simp: canon_def str_of_def)

lemma key_rank_0: "key_rank a = 0 \<longleftrightarrow> num_of a \<noteq> None"
  by (cases a) (auto simp: key_rank_def)

lemma key_rank_1: "key_rank a = Suc 0 \<longleftrightarrow> (\<exists>s. a = VStr s)"
  by (cases a) (auto simp: key_rank_def)

lemma key_le_canon_cong:
  "canon a = canon b \<Longrightarrow> key_le a c = key_le b c \<and> key_le c a = key_le c b"
proof -
  assume e: "canon a = canon b"
  then have "key_rank a = key_rank b" "str_of a = str_of b" "num_of a = num_of b"
    using key_rank_canon[of a] key_rank_canon[of b] str_of_canon[of a] str_of_canon[of b]
      num_of_canon[of a] num_of_canon[of b] by simp_all
  then show ?thesis by (simp add: key_le_rank)
qed

lemma key_le_antisym:
  assumes "key_rank a < 2" "key_le a b" "key_le b a"
  shows "canon a = canon b"
proof -
  from assms have r: "key_rank a = key_rank b" by (auto simp: key_le_rank)
  show ?thesis
  proof (cases "key_rank a = 0")
    case True
    with r assms have "the (num_of a) = the (num_of b)" by (auto simp: key_le_rank)
    moreover from True have "num_of a \<noteq> None" using key_rank_0[of a] by simp
    moreover from True r have "num_of b \<noteq> None" using key_rank_0[of b] by simp
    ultimately show ?thesis by (auto simp: canon_eq_iff)
  next
    case False
    with assms(1) have 1: "key_rank a = 1" by simp
    with r assms have "str_le (str_of a) (str_of b)" "str_le (str_of b) (str_of a)"
      by (auto simp: key_le_rank)
    then have "str_of a = str_of b" by (rule str_le_antisym)
    moreover from 1 obtain s where "a = VStr s" using key_rank_1[of a] by auto
    moreover from 1 r obtain u where "b = VStr u" using key_rank_1[of b] by auto
    ultimately show ?thesis by (simp add: str_of_def)
  qed
qed


lemma is_list_rank: "\<not> is_list a \<Longrightarrow> a \<noteq> VNull \<Longrightarrow> key_rank a < 2"
  by (cases a) (auto simp: is_list_def key_rank_def)

lemma canon_Null_iff: "canon a = canon b \<Longrightarrow> a = VNull \<longleftrightarrow> b = VNull"
  by (auto simp: canon_eq_iff)

lemma cell_le_total: "cell_le asc a b \<or> cell_le asc b a"
  using key_le_total[of a b] by (auto simp: cell_le_def)

lemma cell_le_trans: "cell_le asc a b \<Longrightarrow> cell_le asc b c \<Longrightarrow> cell_le asc a c"
proof -
  assume ab: "cell_le asc a b" and bc: "cell_le asc b c"
  show ?thesis
  proof (cases "c = VNull")
    case True
    then show ?thesis by (simp add: cell_le_def)
  next
    case False
    with bc have b: "b \<noteq> VNull" by (auto simp: cell_le_def split: if_splits)
    with ab have a: "a \<noteq> VNull" by (auto simp: cell_le_def split: if_splits)
    show ?thesis
    proof (cases asc)
      case True
      with ab bc a b False have "key_le a b" "key_le b c" by (simp_all add: cell_le_def)
      then have "key_le a c" by (rule key_le_trans)
      with True a False show ?thesis by (simp add: cell_le_def)
    next
      case n: False
      with ab bc a b False have "key_le c b" "key_le b a" by (simp_all add: cell_le_def)
      then have "key_le c a" by (rule key_le_trans)
      with n a False show ?thesis by (simp add: cell_le_def)
    qed
  qed
qed

lemma cell_le_antisym:
  assumes "\<not> is_list a" "\<not> is_list b" "cell_le asc a b" "cell_le asc b a"
  shows "canon a = canon b"
proof (cases "a = VNull \<or> b = VNull")
  case True
  with assms(3,4) have "a = VNull \<and> b = VNull" by (auto simp: cell_le_def split: if_splits)
  then show ?thesis by simp
next
  case False
  then have ra: "key_rank a < 2" and rb: "key_rank b < 2"
    using assms(1,2) by (simp_all add: is_list_rank)
  from False assms(3,4) have "key_le a b \<and> key_le b a"
    by (cases asc) (simp_all add: cell_le_def)
  with ra show ?thesis by (simp add: key_le_antisym)
qed

lemma cell_le_canon_cong:
  assumes "canon a = canon b"
  shows "cell_le asc a c = cell_le asc b c" "cell_le asc c a = cell_le asc c b"
  using key_le_canon_cong[OF assms, of c] canon_Null_iff[OF assms]
  by (simp_all add: cell_le_def)


lemma lex_le_Nil2: "lex_le asc xs []"
  by (cases xs) simp_all

lemma lex_le_canon_eq: "map canon xs = map canon ys \<Longrightarrow> lex_le asc xs ys"
proof (induction xs arbitrary: ys)
  case Nil
  show ?case by simp
next
  case (Cons a as)
  then obtain b bs where "ys = b # bs" by (cases ys) auto
  with Cons show ?case by simp
qed

lemma lex_le_total:
  "length xs = length ys \<Longrightarrow> lex_le asc xs ys \<or> lex_le asc ys xs"
proof (induction xs arbitrary: ys)
  case Nil
  show ?case by simp
next
  case (Cons a as)
  then obtain b bs where ys: "ys = b # bs" by (cases ys) auto
  with Cons.prems have "length as = length bs" by simp
  from Cons.IH[OF this] cell_le_total[of asc a b] show ?case
    unfolding ys by (cases "canon a = canon b") simp_all
qed

lemma lex_le_trans:
  assumes "length xs = length ys" "length ys = length zs"
    and "\<forall>x \<in> set xs. \<not> is_list x" "\<forall>y \<in> set ys. \<not> is_list y" "\<forall>z \<in> set zs. \<not> is_list z"
    and "lex_le asc xs ys" "lex_le asc ys zs"
  shows "lex_le asc xs zs"
  using assms
proof (induction xs arbitrary: ys zs)
  case Nil
  show ?case by simp
next
  case (Cons a as)
  from Cons.prems(1) obtain b bs where ys: "ys = b # bs" by (cases ys) auto
  from Cons.prems(2) ys obtain c cs where zs: "zs = c # cs" by (cases zs) auto
  from Cons.prems(1,2) ys zs have len: "length as = length bs" "length bs = length cs" by simp_all
  from Cons.prems(3) have la: "\<not> is_list a" and nas: "\<forall>x \<in> set as. \<not> is_list x" by simp_all
  from Cons.prems(4) ys have lb: "\<not> is_list b" and nbs: "\<forall>x \<in> set bs. \<not> is_list x" by simp_all
  from Cons.prems(5) zs have lc: "\<not> is_list c" and ncs: "\<forall>x \<in> set cs. \<not> is_list x" by simp_all
  from Cons.prems(6) ys
  have xy: "if canon a = canon b then lex_le asc as bs else cell_le asc a b" by simp
  from Cons.prems(7) ys zs
  have yz: "if canon b = canon c then lex_le asc bs cs else cell_le asc b c" by simp
  have goal: "lex_le asc (a # as) zs = (if canon a = canon c then lex_le asc as cs else cell_le asc a c)"
    unfolding zs by simp
  show ?case
  proof (cases "canon a = canon b")
    case ab: True
    from xy ab have 1: "lex_le asc as bs" by simp
    show ?thesis
    proof (cases "canon b = canon c")
      case True
      from yz True have 2: "lex_le asc bs cs" by simp
      have "lex_le asc as cs" by (rule Cons.IH[OF len nas nbs ncs 1 2])
      moreover have "canon a = canon c" using ab True by simp
      ultimately show ?thesis unfolding goal by simp
    next
      case False
      from yz False have "cell_le asc b c" by simp
      then have "cell_le asc a c" unfolding cell_le_canon_cong(1)[OF ab] .
      moreover from ab False have "canon a \<noteq> canon c" by simp
      ultimately show ?thesis unfolding goal by simp
    qed
  next
    case ab: False
    from xy ab have 1: "cell_le asc a b" by simp
    show ?thesis
    proof (cases "canon b = canon c")
      case True
      from 1 have "cell_le asc a c" unfolding cell_le_canon_cong(2)[OF True] .
      moreover from ab True have "canon a \<noteq> canon c" by simp
      ultimately show ?thesis unfolding goal by simp
    next
      case False
      from yz False have 2: "cell_le asc b c" by simp
      from 1 2 have 3: "cell_le asc a c" by (rule cell_le_trans)
      have "canon a \<noteq> canon c"
      proof
        assume e: "canon a = canon c"
        from 2 have "cell_le asc b a" unfolding cell_le_canon_cong(2)[OF e] .
        with 1 have "canon a = canon b" by (intro cell_le_antisym[OF la lb])
        with ab show False by simp
      qed
      with 3 show ?thesis unfolding goal by simp
    qed
  qed
qed


subsection \<open>Insertion sort\<close>

lemma mset_insort_by: "mset (insort_by le x xs) = add_mset x (mset xs)"
  by (induction xs) auto

lemma mset_sort_by: "mset (sort_by le xs) = mset xs"
  by (induction xs) (auto simp: sort_by_def mset_insort_by)

lemma set_sort_by: "set (sort_by le xs) = set xs"
  using mset_sort_by[of le xs] by (metis set_mset_mset)

lemma length_sort_by: "length (sort_by le xs) = length xs"
  using mset_sort_by[of le xs] by (metis size_mset)

lemma distinct_sort_by: "distinct (sort_by le xs) = distinct xs"
  using mset_sort_by[of le xs] by (metis mset_eq_imp_distinct_iff)

lemma set_insort_by: "set (insort_by le x xs) = insert x (set xs)"
  using mset_insort_by[of le x xs] by (metis set_mset_mset set_mset_add_mset_insert)

lemma sorted_insort_by:
  assumes total: "\<And>x y. D x \<Longrightarrow> D y \<Longrightarrow> le x y \<or> le y x"
    and trans: "\<And>x y z. D x \<Longrightarrow> D y \<Longrightarrow> D z \<Longrightarrow> le x y \<Longrightarrow> le y z \<Longrightarrow> le x z"
    and "D x" "\<forall>y \<in> set xs. D y" "sorted_wrt le xs"
  shows "sorted_wrt le (insort_by le x xs)"
  using assms(3-)
proof (induction xs)
  case Nil
  show ?case by simp
next
  case (Cons y ys)
  show ?case
  proof (cases "le x y")
    case True
    have "\<forall>z \<in> set ys. le x z"
    proof
      fix z assume z: "z \<in> set ys"
      with Cons.prems have "le y z" by simp
      with True show "le x z" using trans[of x y z] Cons.prems z by simp
    qed
    with True Cons.prems show ?thesis by simp
  next
    case False
    with total[of x y] Cons.prems have yx: "le y x" by simp
    have "sorted_wrt le (insort_by le x ys)" using Cons by simp
    moreover have "\<forall>z \<in> set (insort_by le x ys). le y z"
      using yx Cons.prems by (auto simp: set_insort_by)
    ultimately show ?thesis using False by simp
  qed
qed

lemma sorted_sort_by:
  assumes total: "\<And>x y. D x \<Longrightarrow> D y \<Longrightarrow> le x y \<or> le y x"
    and trans: "\<And>x y z. D x \<Longrightarrow> D y \<Longrightarrow> D z \<Longrightarrow> le x y \<Longrightarrow> le y z \<Longrightarrow> le x z"
    and "\<forall>y \<in> set xs. D y"
  shows "sorted_wrt le (sort_by le xs)"
  using assms(3)
proof (induction xs)
  case Nil
  show ?case by (simp add: sort_by_def)
next
  case (Cons x xs)
  have "sorted_wrt le (insort_by le x (sort_by le xs))"
  proof (rule sorted_insort_by[where D = D])
    show "\<And>x y. D x \<Longrightarrow> D y \<Longrightarrow> le x y \<or> le y x" by (rule total)
    show "\<And>x y z. D x \<Longrightarrow> D y \<Longrightarrow> D z \<Longrightarrow> le x y \<Longrightarrow> le y z \<Longrightarrow> le x z" by (rule trans)
    show "D x" using Cons.prems by simp
    show "\<forall>y \<in> set (sort_by le xs). D y" using Cons.prems by (simp add: set_sort_by)
    show "sorted_wrt le (sort_by le xs)" using Cons by simp
  qed
  then show ?case by (simp add: sort_by_def)
qed

lemma filter_insort_by:
  assumes "\<forall>y \<in> set ys. P x \<and> P y \<longrightarrow> le x y"
  shows "filter P (insort_by le x ys) = filter P (x # ys)"
  using assms
proof (induction ys)
  case Nil
  show ?case by simp
next
  case (Cons y ys)
  show ?case
  proof (cases "le x y")
    case True
    then show ?thesis by simp
  next
    case False
    with Cons.prems have n: "\<not> (P x \<and> P y)" by auto
    have ih: "filter P (insort_by le x ys) = filter P (x # ys)" using Cons by simp
    show ?thesis using False n ih by auto
  qed
qed

lemma filter_sort_by_stable:
  assumes "\<And>x y. P x \<Longrightarrow> P y \<Longrightarrow> le x y"
  shows "filter P (sort_by le xs) = filter P xs"
proof (induction xs)
  case Nil
  show ?case by (simp add: sort_by_def)
next
  case (Cons x xs)
  have "filter P (insort_by le x (sort_by le xs)) = filter P (x # sort_by le xs)"
    by (rule filter_insort_by) (simp add: assms)
  with Cons show ?case by (simp add: sort_by_def)
qed

subsection \<open>\<open>summarize\<close> with group-by columns\<close>

lemma sequence_getitem:
  assumes "sequence (map (getitem t) cs) = Inr ps"
  shows "length ps = length cs \<and> (\<forall>i < length cs. index_of (cs ! i) (colnames t) = Some (ps ! i))"
proof -
  from assms have m: "map (getitem t) cs = map Inr ps" by (simp add: sequence_Inr_iff)
  then have "length (map (getitem t) cs) = length (map Inr ps)" by simp
  then have l: "length cs = length ps" by simp
  have "index_of (cs ! i) (colnames t) = Some (ps ! i)" if i: "i < length cs" for i
  proof -
    have "map (getitem t) cs ! i = map Inr ps ! i" using m by simp
    with i l have "getitem t (cs ! i) = Inr (ps ! i)" by simp
    then show ?thesis by (cases "index_of (cs ! i) (colnames t)") (simp_all add: getitem_def)
  qed
  with l show ?thesis by simp
qed

lemma has_key_positions:
  assumes "sequence (map (getitem t) cs) = Inr ps"
  shows "has_key t cs r \<longleftrightarrow> (\<forall>p \<in> set ps. snd r ! p \<noteq> VNull)"
proof -
  from sequence_getitem[OF assms]
  have l: "length ps = length cs"
    and n: "\<And>i. i < length cs \<Longrightarrow> index_of (cs ! i) (colnames t) = Some (ps ! i)" by simp_all
  show ?thesis
  proof
    assume h: "has_key t cs r"
    show "\<forall>p \<in> set ps. snd r ! p \<noteq> VNull"
    proof
      fix p assume "p \<in> set ps"
      then obtain i where i: "i < length ps" "ps ! i = p" by (auto simp: in_set_conv_nth)
      with l have "cs ! i \<in> set cs" by simp
      with h[unfolded has_key_def]
      have "case index_of (cs ! i) (colnames t) of None \<Rightarrow> True | Some p \<Rightarrow> snd r ! p \<noteq> VNull"
        by (rule bspec)
      with n[of i] i l show "snd r ! p \<noteq> VNull" by simp
    qed
  next
    assume a: "\<forall>p \<in> set ps. snd r ! p \<noteq> VNull"
    show "has_key t cs r"
      unfolding has_key_def
    proof
      fix c assume "c \<in> set cs"
      then obtain i where i: "i < length cs" "cs ! i = c" by (auto simp: in_set_conv_nth)
      from i l have "ps ! i \<in> set ps" by simp
      with a have "snd r ! (ps ! i) \<noteq> VNull" by (rule bspec)
      with n[of i] i show "case index_of c (colnames t) of None \<Rightarrow> True | Some p \<Rightarrow> snd r ! p \<noteq> VNull"
        by simp
    qed
  qed
qed

lemma agg_value_columns:
  "columns t' = columns t \<Longrightarrow> agg_value lib t' grp a = agg_value lib t grp a"
  by (simp add: agg_value_def getitem_def colnames_def)

lemma group_row_columns:
  "columns t' = columns t \<Longrightarrow> group_row lib t' ps agg valid k = group_row lib t ps agg valid k"
  using agg_value_columns[of t' t lib] by (simp add: group_row_def)

lemma aggregate_groups_columns:
  assumes c: "columns t' = columns t"
  shows "aggregate_groups lib t' group_by ps agg valid = aggregate_groups lib t group_by ps agg valid"
proof -
  have r: "group_row lib t' ps agg valid = group_row lib t ps agg valid"
    using group_row_columns[OF c] by (simp add: fun_eq_iff)
  show ?thesis unfolding aggregate_groups_def r c ..
qed

lemma groupby_agg_valid_rows:
  assumes c: "columns t' = columns t"
    and ps: "sequence (map (getitem t) group_by) = Inr ps"
    and v: "valid_rows ps (rows t') = valid_rows ps (rows t)"
    and l: "\<not> (\<exists>r \<in> set (rows t). \<exists>p \<in> set ps. is_list (snd r ! p))"
    and l': "\<not> (\<exists>r \<in> set (rows t'). \<exists>p \<in> set ps. is_list (snd r ! p))"
  shows "groupby_agg lib t' group_by agg = groupby_agg lib t group_by agg"
proof -
  have n: "colnames t' = colnames t" using c by (simp add: colnames_def)
  have g: "map (getitem t') group_by = map (getitem t) group_by"
    using n by (simp add: getitem_def)
  have 1: "groupby_agg lib t group_by agg =
      (if filter (\<lambda>c. c \<notin> set (colnames t)) (map (\<lambda>a. fst (snd a)) agg) \<noteq> []
       then Inl (missing_columns_error (filter (\<lambda>c. c \<notin> set (colnames t)) (map (\<lambda>a. fst (snd a)) agg)))
       else aggregate_groups lib t group_by ps agg (valid_rows ps (rows t)))"
    unfolding groupby_agg_def Let_def ps using l by simp
  have 2: "groupby_agg lib t' group_by agg =
      (if filter (\<lambda>c. c \<notin> set (colnames t)) (map (\<lambda>a. fst (snd a)) agg) \<noteq> []
       then Inl (missing_columns_error (filter (\<lambda>c. c \<notin> set (colnames t)) (map (\<lambda>a. fst (snd a)) agg)))
       else aggregate_groups lib t' group_by ps agg (valid_rows ps (rows t')))"
    unfolding groupby_agg_def Let_def g ps n using l' by simp
  show ?thesis unfolding 1 2 v aggregate_groups_columns[OF c] ..
qed

lemma groupby_agg_Inr:
  assumes "groupby_agg lib t group_by agg = Inr out"
  shows "\<exists>ps. sequence (map (getitem t) group_by) = Inr ps \<and>
           \<not> (\<exists>r \<in> set (rows t). \<exists>p \<in> set ps. is_list (snd r ! p)) \<and>
           aggregate_groups lib t group_by ps agg (valid_rows ps (rows t)) = Inr out"
proof (cases "sequence (map (getitem t) group_by)")
  case (Inl e)
  with assms show ?thesis by (simp add: groupby_agg_def)
next
  case (Inr ps)
  from assms have a: "(let missing = filter (\<lambda>c. c \<notin> set (colnames t)) (map (\<lambda>a. fst (snd a)) agg) in
           if missing \<noteq> [] then Inl (missing_columns_error missing)
           else if \<exists>r \<in> set (rows t). \<exists>p \<in> set ps. is_list (snd r ! p)
           then Inl (TypeError ''unhashable type: list'')
           else aggregate_groups lib t group_by ps agg (valid_rows ps (rows t))) = Inr out"
    unfolding groupby_agg_def Inr by simp
  then have "\<not> (\<exists>r \<in> set (rows t). \<exists>p \<in> set ps. is_list (snd r ! p)) \<and>
           aggregate_groups lib t group_by ps agg (valid_rows ps (rows t)) = Inr out"
    unfolding Let_def by (simp split: if_splits)
  with Inr show ?thesis by simp
qed

lemma aggregate_groups_Inr:
  assumes "aggregate_groups lib t group_by ps agg valid = Inr out"
  shows "\<exists>outs. sequence (map (group_row lib t ps agg valid)
                     (sort_by (lex_le True) (remdups (map (group_keys ps) valid)))) = Inr outs \<and>
           rows out = zip (range_index (length outs)) outs"
proof (cases "sequence (map (group_row lib t ps agg valid)
                     (sort_by (lex_le True) (remdups (map (group_keys ps) valid))))")
  case (Inl e)
  with assms show ?thesis by (simp add: aggregate_groups_def)
next
  case (Inr outs)
  with assms have "rows out = zip (range_index (length outs)) outs"
    unfolding aggregate_groups_def Let_def by (simp split: if_splits) auto
  with Inr show ?thesis by simp
qed


lemma group_nonempty:
  assumes "k \<in> set (sort_by le (remdups (map (group_keys ps) valid)))"
  shows "filter (\<lambda>r. group_keys ps r = k) valid \<noteq> [] \<and>
         hd (filter (\<lambda>r. group_keys ps r = k) valid) \<in> set valid \<and>
         group_keys ps (hd (filter (\<lambda>r. group_keys ps r = k) valid)) = k"
proof -
  let ?grp = "filter (\<lambda>r. group_keys ps r = k) valid"
  from assms have "k \<in> set (map (group_keys ps) valid)" by (simp add: set_sort_by)
  then obtain r where "r \<in> set valid" "group_keys ps r = k" by auto
  then have "r \<in> set ?grp" by simp
  then have ne: "?grp \<noteq> []" by (cases ?grp) auto
  then have "hd ?grp \<in> set ?grp" by (rule hd_in_set)
  with ne show ?thesis by simp
qed

lemma group_row_keys:
  assumes "group_row lib t ps agg valid k = Inr cells"
  shows "\<exists>vals. cells = map (\<lambda>p. snd (hd (filter (\<lambda>r. group_keys ps r = k) valid)) ! p) ps @ vals"
  using assms unfolding group_row_def Let_def
  by (cases "sequence (map (\<lambda>a. agg_value lib t (filter (\<lambda>r. group_keys ps r = k) valid) (snd a)) agg)")
     auto

lemma op_summarize_grouped:
  assumes "summarize_parse e = (agg0, group_by)" "group_by \<noteq> []"
  shows "op_summarize lib t (VStr e # args) kw =
           groupby_agg lib t group_by
             (if agg0 = [] then foldl (\<lambda>d c. AList.update c (c, ''mean'') d) [] (numeric_cols t) else agg0)"
  using assms by (simp add: op_summarize_def Let_def)


lemma sum_list_indicator:
  "distinct ks \<Longrightarrow> y \<in> set ks \<Longrightarrow> sum_list (map (\<lambda>k. if y = k then 1 else 0) ks) = (1::nat)"
proof (induction ks)
  case Nil
  then show ?case by simp
next
  case (Cons k ks)
  show ?case
  proof (cases "y = k")
    case True
    with Cons.prems have "y \<notin> set ks" by simp
    then have "sum_list (map (\<lambda>k. if y = k then 1 else 0) ks) = (0::nat)"
      by (induction ks) auto
    with True show ?thesis by simp
  next
    case False
    with Cons show ?thesis by simp
  qed
qed

lemma sum_group_sizes:
  assumes "distinct ks" "\<forall>x \<in> set xs. key x \<in> set ks"
  shows "sum_list (map (\<lambda>k. length (filter (\<lambda>x. key x = k) xs)) ks) = length xs"
  using assms(2)
proof (induction xs)
  case Nil
  show ?case by simp
next
  case (Cons x xs)
  have "sum_list (map (\<lambda>k. length (filter (\<lambda>x. key x = k) (x # xs))) ks) =
        sum_list (map (\<lambda>k. (if key x = k then 1 else 0) + length (filter (\<lambda>x. key x = k) xs)) ks)"
    by (rule arg_cong[where f = sum_list]) (rule map_cong, auto)
  also have "\<dots> = sum_list (map (\<lambda>k. if key x = k then 1 else 0) ks) +
                  sum_list (map (\<lambda>k. length (filter (\<lambda>x. key x = k) xs)) ks)"
    by (rule sum_list_addf)
  also have "sum_list (map (\<lambda>k. if key x = k then 1 else 0) ks) = (1::nat)"
    using assms(1) Cons.prems by (intro sum_list_indicator) simp_all
  also have "sum_list (map (\<lambda>k. length (filter (\<lambda>x. key x = k) xs)) ks) = length xs"
    using Cons by simp
  finally show ?case by simp
qed

lemma sorted_wrt_conj:
  "sorted_wrt P xs \<Longrightarrow> sorted_wrt Q xs \<Longrightarrow> sorted_wrt (\<lambda>x y. P x y \<and> Q x y) xs"
  by (induction xs) auto

lemma distinct_sorted_wrt_neq: "distinct xs \<Longrightarrow> sorted_wrt (\<lambda>x y. x \<noteq> y) xs"
  by (induction xs) auto

lemma is_list_canon: "is_list (canon v) = is_list v"
  by (cases v) (auto simp: canon_def is_list_def)

lemma canon_Null: "canon v = VNull \<longleftrightarrow> v = VNull"
  by (cases v) (auto simp: canon_def)

lemma summarize_parse_count_by:
  "summarize_parse ''cnt=count(v), g'' = ([(''cnt'', ''v'', ''size'')], [''g''])"
  by code_simp


text \<open>The groups of one key column with one \<open>size\<close> aggregate.\<close>

lemma count_groups:
  assumes pg: "index_of g (colnames t) = Some pg"
    and v: "v \<in> set (colnames t)"
    and nl: "\<forall>r \<in> set (rows t). \<not> is_list (snd r ! pg)"
    and ne: "g \<noteq> c"
  defines "valid \<equiv> valid_rows [pg] (rows t)"
  defines "ks \<equiv> sort_by (lex_le True) (remdups (map (group_keys [pg]) valid))"
  defines "grp \<equiv> \<lambda>k. filter (\<lambda>r. group_keys [pg] r = k) valid"
  shows "groupby_agg lib t [g] [(c, v, ''size'')] =
           Inr \<lparr>columns = [columns t ! pg, (c, Int64)],
                rows = zip (range_index (length ks))
                         (map (\<lambda>k. [snd (hd (grp k)) ! pg, VInt (int (length (grp k)))]) ks)\<rparr>"
proof -
  from v obtain pv where pv: "index_of v (colnames t) = Some pv"
    by (cases "index_of v (colnames t)") (auto simp: index_of_None_iff)
  have s: "sequence (map (getitem t) [g]) = Inr [pg]" by (simp add: getitem_def pg)
  have m: "filter (\<lambda>c. c \<notin> set (colnames t)) (map (\<lambda>a. fst (snd a)) [(c, v, ''size'')]) = []"
    using v by simp
  have l: "\<not> (\<exists>r \<in> set (rows t). \<exists>p \<in> set [pg]. is_list (snd r ! p))" using nl by simp
  have gr: "group_row lib t [pg] [(c, v, ''size'')] valid k =
              Inr [snd (hd (grp k)) ! pg, VInt (int (length (grp k)))]" for k
    by (simp add: group_row_def agg_value_def getitem_def pv grp_def Let_def)
  have sq: "sequence (map (group_row lib t [pg] [(c, v, ''size'')] valid) ks) =
              Inr (map (\<lambda>k. [snd (hd (grp k)) ! pg, VInt (int (length (grp k)))]) ks)"
    unfolding sequence_Inr_iff by (simp add: gr)
  have ag: "aggregate_groups lib t [g] [pg] [(c, v, ''size'')] valid =
           Inr \<lparr>columns = [columns t ! pg, (c, Int64)],
                rows = zip (range_index (length ks))
                         (map (\<lambda>k. [snd (hd (grp k)) ! pg, VInt (int (length (grp k)))]) ks)\<rparr>"
    unfolding aggregate_groups_def Let_def ks_def[symmetric] sq using ne by simp
  show ?thesis
    unfolding groupby_agg_def s Let_def m using l ag[unfolded valid_def] by simp
qed

subsection \<open>\<open>sort\<close>\<close>

lemma sorted_wrt_all: "(\<And>x y. x \<in> set xs \<Longrightarrow> y \<in> set xs \<Longrightarrow> P x y) \<Longrightarrow> sorted_wrt P xs"
  by (induction xs) auto

lemma comparable_no_list: "comparable ks \<Longrightarrow> k \<in> set ks \<Longrightarrow> \<not> is_list k"
  by (cases k) (auto simp: comparable_def is_list_def)

lemma comparable_set: "set ks = set ks' \<Longrightarrow> comparable ks = comparable ks'"
  by (simp add: comparable_def)

lemma mset_map_nth:
  assumes "mset ix = mset [0..<length xs]"
  shows "mset (map (\<lambda>i. xs ! i) ix) = mset xs"
proof -
  have "mset (map (\<lambda>i. xs ! i) ix) = image_mset (\<lambda>i. xs ! i) (mset ix)" by simp
  also have "\<dots> = image_mset (\<lambda>i. xs ! i) (mset [0..<length xs])" unfolding assms ..
  also have "\<dots> = mset (map (\<lambda>i. xs ! i) [0..<length xs])" by simp
  also have "map (\<lambda>i. xs ! i) [0..<length xs] = xs" by (rule map_nth)
  finally show ?thesis .
qed

lemma mset_positions:
  assumes "mset ix = mset [0..<n]"
  shows "set ix = {0..<n}"
proof -
  from assms have "set_mset (mset ix) = set_mset (mset [0..<n])" by simp
  then show ?thesis by simp
qed

text \<open>What a sorting \<open>argsort\<close> does to a list of positions \<open>I\<close> with the keys \<open>f\<close>.\<close>

lemma argsort_positions:
  assumes ok: "argsort_ok lib" and c: "comparable (map f I)"
  shows "mset (map (\<lambda>j. I ! j) (np_argsort lib (map f I))) = mset I"
    and "sorted_wrt key_le (map f (map (\<lambda>j. I ! j) (np_argsort lib (map f I))))"
proof -
  let ?s = "np_argsort lib (map f I)"
  from ok c have m: "mset ?s = mset [0..<length (map f I)]"
    and s: "sorted_wrt key_le (map (\<lambda>i. map f I ! i) ?s)"
    unfolding argsort_ok_def by blast+
  from m have m': "mset ?s = mset [0..<length I]" by simp
  show "mset (map (\<lambda>j. I ! j) ?s) = mset I" by (rule mset_map_nth[OF m'])
  from mset_positions[OF m'] have "\<forall>j \<in> set ?s. j < length I" by simp
  then have "map f (map (\<lambda>j. I ! j) ?s) = map (\<lambda>i. map f I ! i) ?s" by simp
  then show "sorted_wrt key_le (map f (map (\<lambda>j. I ! j) ?s))" using s by (simp only:)
qed

lemma nargsort_Inr:
  assumes ok: "argsort_ok lib" and r: "nargsort lib items asc = Inr ix"
  shows "mset ix = mset [0..<length items]"
    and "sorted_wrt (\<lambda>a b. lex_le asc [a] [b]) (map (\<lambda>i. items ! i) ix)"
proof -
  define f where "f = (\<lambda>i. items ! i)"
  define I where "I = filter (\<lambda>i. f i \<noteq> VNull) [0..<length items]"
  define N where "N = filter (\<lambda>i. f i = VNull) [0..<length items]"
  define A where "A = (if asc then map (\<lambda>j. I ! j) (np_argsort lib (map f I))
                       else rev (map (\<lambda>j. rev I ! j) (np_argsort lib (rev (map f I)))))"
  from r have c: "comparable (map f I)" and ix: "ix = A @ N"
    unfolding nargsort_def Let_def f_def[symmetric] I_def[symmetric] N_def[symmetric] A_def
    by (simp_all split: if_splits)
  have c': "comparable (map f (rev I))" using c comparable_set[of "map f (rev I)" "map f I"] by simp
  have rv: "rev (map f I) = map f (rev I)" by (simp add: rev_map)
  have mA: "mset A = mset I"
  proof (cases asc)
    case True
    then show ?thesis using argsort_positions(1)[OF ok c] by (simp add: A_def)
  next
    case False
    then show ?thesis using argsort_positions(1)[OF ok c'] by (simp add: A_def rv)
  qed
  have sA: "sorted_wrt (\<lambda>a b. if asc then key_le a b else key_le b a) (map f A)"
  proof (cases asc)
    case True
    then show ?thesis using argsort_positions(2)[OF ok c] by (simp add: A_def)
  next
    case False
    have "sorted_wrt (\<lambda>a b. key_le b a)
            (rev (map f (map (\<lambda>j. rev I ! j) (np_argsort lib (map f (rev I))))))"
      unfolding sorted_wrt_rev by (rule argsort_positions(2)[OF ok c'])
    then show ?thesis using False by (simp add: A_def rv rev_map)
  qed
  have "mset (filter (\<lambda>i. f i \<noteq> VNull) xs) + mset (filter (\<lambda>i. f i = VNull) xs) = mset xs" for xs
    by (induction xs) auto
  then have "mset I + mset N = mset [0..<length items]"
    unfolding I_def N_def .
  with mA show "mset ix = mset [0..<length items]" by (simp add: ix)
  from mA have "set A = set I" by (metis set_mset_mset)
  then have nnA: "\<forall>a \<in> set (map f A). a \<noteq> VNull" by (auto simp: I_def)
  have nN: "\<forall>b \<in> set (map f N). b = VNull" by (auto simp: N_def)
  have 1: "sorted_wrt (\<lambda>a b. lex_le asc [a] [b]) (map f A)"
  proof (rule sorted_wrt_mono_rel[OF _ sA])
    fix a b assume "a \<in> set (map f A)" "b \<in> set (map f A)"
      and "if asc then key_le a b else key_le b a"
    with nnA show "lex_le asc [a] [b]" by (auto simp: cell_le_def)
  qed
  have 2: "sorted_wrt (\<lambda>a b. lex_le asc [a] [b]) (map f N)"
    by (rule sorted_wrt_all) (use nN in auto)
  have 3: "\<forall>a \<in> set (map f A). \<forall>b \<in> set (map f N). lex_le asc [a] [b]"
    using nN by (auto simp: cell_le_def)
  have "sorted_wrt (\<lambda>a b. lex_le asc [a] [b]) (map f A @ map f N)"
    unfolding sorted_wrt_append using 1 2 3 by blast
  then show "sorted_wrt (\<lambda>a b. lex_le asc [a] [b]) (map (\<lambda>i. items ! i) ix)"
    by (simp add: ix f_def)
qed

lemma sort_positions:
  assumes "sequence (map (\<lambda>b. case b of VStr s \<Rightarrow> getitem t s | _ \<Rightarrow> Inl (KeyError (py_str lib b))) bs) = Inr ps"
  shows "ps = List.map_filter (\<lambda>b. case b of VStr s \<Rightarrow> index_of s (colnames t) | _ \<Rightarrow> None) bs"
    and "map VStr (map (\<lambda>p. colnames t ! p) ps) = bs"
proof -
  let ?F = "\<lambda>b. case b of VStr s \<Rightarrow> getitem t s | _ \<Rightarrow> Inl (KeyError (py_str lib b))"
  let ?G = "\<lambda>b. case b of VStr s \<Rightarrow> index_of s (colnames t) | _ \<Rightarrow> None"
  have F: "?G b = Some p \<and> VStr (colnames t ! p) = b" if "?F b = Inr p" for b p
    using that index_of_Some[of _ "colnames t" p]
    by (cases b) (auto simp: getitem_def split: option.splits)
  from assms have "map ?F bs = map Inr ps" by (simp add: sequence_Inr_iff)
  then have "ps = List.map_filter ?G bs \<and> map VStr (map (\<lambda>p. colnames t ! p) ps) = bs"
  proof (induction bs arbitrary: ps)
    case Nil
    then show ?case by (simp add: List.map_filter_simps)
  next
    case (Cons b bs)
    from Cons.prems obtain p ps' where ps: "ps = p # ps'" and b: "?F b = Inr p"
      and bs: "map ?F bs = map Inr ps'" by (cases ps) auto
    note ih = Cons.IH[OF bs]
    from ih have ih1: "ps' = List.map_filter ?G bs" by (rule conjunct1)
    from ih have ih2: "map VStr (map (\<lambda>p. colnames t ! p) ps') = bs" by (rule conjunct2)
    note fb = F[OF b]
    from fb have g: "?G b = Some p" by (rule conjunct1)
    from fb have v: "VStr (colnames t ! p) = b" by (rule conjunct2)
    have 1: "List.map_filter ?G (b # bs) = p # List.map_filter ?G bs"
      using g by (simp add: List.map_filter_simps)
    have 2: "map VStr (map (\<lambda>p. colnames t ! p) (p # ps')) = b # bs"
      using v ih2 by simp
    have "p # ps' = List.map_filter ?G (b # bs)" unfolding 1 ih1[symmetric] ..
    with 2 show ?case unfolding ps by (rule conjI[rotated])
  qed
  then show "ps = List.map_filter ?G bs" and "map VStr (map (\<lambda>p. colnames t ! p) ps) = bs"
    by (rule conjunct1, rule conjunct2)
qed


lemma row_le_single: "row_le [p] asc r1 r2 = lex_le asc [snd r1 ! p] [snd r2 ! p]"
  by (simp add: row_le_def sort_key_def)

lemma row_le_total: "row_le ps asc r1 r2 \<or> row_le ps asc r2 r1"
  unfolding row_le_def by (rule lex_le_total) (simp add: sort_key_def)

lemma sort_single:
  assumes ok: "argsort_ok lib" and r: "nargsort lib (column_values t p) asc = Inr ix"
  shows "mset (map (\<lambda>i. rows t ! i) ix) = mset (rows t)"
    and "sorted_wrt (row_le [p] asc) (map (\<lambda>i. rows t ! i) ix)"
proof -
  let ?cv = "column_values t p"
  have len: "length ?cv = length (rows t)" by (simp add: column_values_def)
  from nargsort_Inr(1)[OF ok r] have m: "mset ix = mset [0..<length (rows t)]" by (simp add: len)
  show "mset (map (\<lambda>i. rows t ! i) ix) = mset (rows t)" by (rule mset_map_nth[OF m])
  from mset_positions[OF m] have in_range: "\<forall>i \<in> set ix. i < length (rows t)" by simp
  from nargsort_Inr(2)[OF ok r]
  have "sorted_wrt (\<lambda>i j. lex_le asc [?cv ! i] [?cv ! j]) ix" by (simp add: sorted_wrt_map)
  then have "sorted_wrt (\<lambda>i j. row_le [p] asc (rows t ! i) (rows t ! j)) ix"
  proof (rule sorted_wrt_mono_rel[rotated])
    fix i j assume "i \<in> set ix" "j \<in> set ix" and l: "lex_le asc [?cv ! i] [?cv ! j]"
    with in_range have "i < length (rows t)" "j < length (rows t)" by simp_all
    then have "?cv ! i = snd (rows t ! i) ! p" "?cv ! j = snd (rows t ! j) ! p"
      by (simp_all add: column_values_def)
    with l show "row_le [p] asc (rows t ! i) (rows t ! j)" by (simp only: row_le_single)
  qed
  then show "sorted_wrt (row_le [p] asc) (map (\<lambda>i. rows t ! i) ix)" by (simp add: sorted_wrt_map)
qed

lemma sort_several:
  assumes c: "\<forall>p \<in> set ps. comparable (filter (\<lambda>v. v \<noteq> VNull) (column_values t p))"
  shows "sorted_wrt (row_le ps asc) (sort_by (row_le ps asc) (rows t))"
proof (rule sorted_sort_by[where D = "\<lambda>r. r \<in> set (rows t)"])
  have nl: "\<forall>x \<in> set (sort_key ps r). \<not> is_list x" if r: "r \<in> set (rows t)" for r
  proof
    fix x assume "x \<in> set (sort_key ps r)"
    then obtain p where p: "p \<in> set ps" and x: "x = snd r ! p" by (auto simp: sort_key_def)
    show "\<not> is_list x"
    proof (cases "x = VNull")
      case True
      then show ?thesis by (simp add: is_list_def)
    next
      case False
      with r x have "x \<in> set (filter (\<lambda>v. v \<noteq> VNull) (column_values t p))"
        by (auto simp: column_values_def)
      with c p show ?thesis using comparable_no_list by blast
    qed
  qed
  show "\<And>x y. x \<in> set (rows t) \<Longrightarrow> y \<in> set (rows t) \<Longrightarrow> row_le ps asc x y \<or> row_le ps asc y x"
    by (rule row_le_total)
  show "\<And>x y z. x \<in> set (rows t) \<Longrightarrow> y \<in> set (rows t) \<Longrightarrow> z \<in> set (rows t) \<Longrightarrow>
          row_le ps asc x y \<Longrightarrow> row_le ps asc y z \<Longrightarrow> row_le ps asc x z"
    unfolding row_le_def
    by (rule lex_le_trans[where ys = "sort_key ps y" for y]) (simp_all add: nl, simp_all add: sort_key_def)
  show "\<forall>y \<in> set (rows t). y \<in> set (rows t)" by simp
qed

lemma sort_several_stable:
  "filter (\<lambda>r. canon_key ps r = k) (sort_by (row_le ps asc) (rows t)) =
   filter (\<lambda>r. canon_key ps r = k) (rows t)"
  by (rule filter_sort_by_stable) (simp add: row_le_def canon_key_def lex_le_canon_eq)


lemma sort_values_Inr:
  assumes ok: "argsort_ok lib" and r: "sort_values lib t by asc = Inr t'"
  shows "\<exists>ps. sequence (map (\<lambda>b. case b of VStr s \<Rightarrow> getitem t s | _ \<Rightarrow> Inl (KeyError (py_str lib b))) by) = Inr ps \<and>
           columns t' = columns t \<and> mset (rows t') = mset (rows t) \<and>
           sorted_wrt (row_le ps asc) (rows t') \<and>
           (2 \<le> length ps \<longrightarrow>
              (\<forall>k. filter (\<lambda>r. canon_key ps r = k) (rows t') = filter (\<lambda>r. canon_key ps r = k) (rows t)))"
proof -
  let ?F = "\<lambda>b. case b of VStr s \<Rightarrow> getitem t s | _ \<Rightarrow> Inl (KeyError (py_str lib b))"
  from r obtain ps where ps: "sequence (map ?F by) = Inr ps"
    by (cases "sequence (map ?F by)") (auto simp: sort_values_def)
  have "columns t' = columns t \<and> mset (rows t') = mset (rows t) \<and>
        sorted_wrt (row_le ps asc) (rows t') \<and>
        (2 \<le> length ps \<longrightarrow>
           (\<forall>k. filter (\<lambda>r. canon_key ps r = k) (rows t') = filter (\<lambda>r. canon_key ps r = k) (rows t)))"
  proof (cases ps)
    case Nil
    with r ps have "t' = t" by (simp add: sort_values_def)
    moreover have "sorted_wrt (row_le [] asc) (rows t)"
      by (rule sorted_wrt_all) (simp add: row_le_def sort_key_def)
    ultimately show ?thesis using Nil by simp
  next
    case (Cons p qs)
    show ?thesis
    proof (cases qs)
      case Nil
      with Cons have p1: "ps = [p]" by simp
      with r ps obtain ix where ix: "nargsort lib (column_values t p) asc = Inr ix"
        and t': "t' = t\<lparr>rows := map (\<lambda>i. rows t ! i) ix\<rparr>"
        by (cases "nargsort lib (column_values t p) asc") (auto simp: sort_values_def)
      from sort_single[OF ok ix] show ?thesis by (simp add: t' p1)
    next
      case (Cons q qs')
      with \<open>ps = p # qs\<close> have p2: "ps = p # q # qs'" by simp
      with r ps have c: "\<forall>p \<in> set ps. comparable (filter (\<lambda>v. v \<noteq> VNull) (column_values t p))"
        and t': "t' = t\<lparr>rows := sort_by (row_le ps asc) (rows t)\<rparr>"
        by (auto simp: sort_values_def split: if_splits)
      from sort_several[OF c] sort_several_stable[of ps _ asc t]
      show ?thesis by (simp add: t' mset_sort_by)
    qed
  qed
  with ps show ?thesis by blast
qed

lemma str_lower_asc: "str_lower ''asc'' \<noteq> ''desc''"
  by code_simp

lemma argsort_ok_lib0: "argsort_ok lib0"
  unfolding argsort_ok_def
proof (intro allI impI conjI)
  fix ks :: "val list"
  let ?le = "\<lambda>a b :: val \<times> nat. key_le (fst a) (fst b)"
  let ?z = "zip ks [0..<length ks]"
  let ?s = "sort_by ?le ?z"
  have a: "np_argsort lib0 ks = map snd ?s" by (simp add: lib0_def)
  have "mset (map snd ?s) = image_mset snd (mset ?s)" by (simp only: mset_map)
  also have "\<dots> = image_mset snd (mset ?z)" by (simp only: mset_sort_by)
  also have "\<dots> = mset (map snd ?z)" by (simp only: mset_map)
  also have "map snd ?z = [0..<length ks]" by (rule map_snd_zip) simp
  finally show "mset (np_argsort lib0 ks) = mset [0..<length ks]" unfolding a .
  have srt: "sorted_wrt ?le ?s"
    by (rule sorted_sort_by[where D = "\<lambda>_. True"])
       (use key_le_total key_le_trans in blast)+
  have "\<forall>x \<in> set ?s. ks ! snd x = fst x"
    unfolding set_sort_by by (auto simp: set_zip)
  then have m: "map (\<lambda>i. ks ! i) (map snd ?s) = map fst ?s" by simp
  from srt have "sorted_wrt key_le (map fst ?s)" by (simp add: sorted_wrt_map)
  then show "sorted_wrt key_le (map (\<lambda>i. ks ! i) (np_argsort lib0 ks))" unfolding a m .
qed

subsection \<open>The executor\<close>

lemma run_operations_append:
  "run_operations e h r (xs @ ys) =
     (case run_operations e h r xs of
        (Inl x, h') \<Rightarrow> (Inl x, h')
      | (Inr r', h') \<Rightarrow> run_operations e h' r' ys)"
  by (induction xs arbitrary: h r) (auto split: option.splits sum.splits prod.splits)

text \<open>The paths that end in \<open>return df\<close> are paths on which the operator's table is its input.\<close>

lemma returns_df_same:
  "where_returns_df t args kw \<Longrightarrow> op_where lib t args kw = Inr t"
  "summarize_returns_df t args kw \<Longrightarrow> op_summarize lib t args kw = Inr t"
  "project_returns_df t args kw \<Longrightarrow> op_project lib t args kw = Inr t"
  "take_returns_df t args kw \<Longrightarrow> op_take lib t args kw = Inr t"
  "make_list_returns_df t args kw \<Longrightarrow> op_make_list lib t args kw = Inr t"
  "mv_expand_returns_df lib t args kw \<Longrightarrow> op_mv_expand lib t args kw = Inr t"
  "op_join lib t args kw = Inr t"
  "op_union lib t args kw = Inr t"
  by (auto simp: where_returns_df_def op_where_def summarize_returns_df_def op_summarize_def
        project_returns_df_def op_project_def take_returns_df_def op_take_def
        make_list_returns_df_def op_make_list_def mv_expand_returns_df_def op_mv_expand_def
        op_join_def op_union_def Let_def
      split: list.splits val.splits sum.splits bool.splits option.splits if_splits)

text \<open>\<open>_extend\<close> writes its copy only: it allocates the table \<open>op_extend\<close> computes.\<close>

lemma extend_writes_copy:
  assumes "r < length h"
  shows "foldl (\<lambda>h' arg. h'[length h := extend_arg lib (h' ! r) (h' ! length h) arg]) (h @ [t]) args =
         h @ [foldl (extend_arg lib (h ! r)) t args]"
proof (induction args arbitrary: t)
  case Nil
  show ?case by simp
next
  case (Cons a args)
  have "(h @ [t])[length h := extend_arg lib ((h @ [t]) ! r) ((h @ [t]) ! length h) a] =
        h @ [extend_arg lib (h ! r) t a]"
    using assms by (simp add: nth_append)
  then show ?case using Cons.IH by simp
qed

lemma method_extend_eq:
  assumes "r < length h"
  shows "method_extend lib h r args kw = (Inr (length h), h @ [foldl (extend_arg lib (h ! r)) (h ! r) args])"
  using extend_writes_copy[OF assms] by (simp add: method_extend_def copy_frame_def)

lemma bound_method_local: "local_handler (bound_method f returns_df)"
  by (auto simp: local_handler_def bound_method_def nth_append split: sum.splits)

lemma method_extend_local: "local_handler (method_extend lib)"
  by (auto simp: local_handler_def method_extend_eq nth_append)

lemma initialize_functions_local:
  "map_of (initialize_functions lib) name = Some f \<Longrightarrow> local_handler f"
  by (auto simp: initialize_functions_def bound_method_local method_extend_local split: if_splits)

lemma local_handlerD:
  assumes "local_handler f" and "r < length h" and "f h r args kw = (res, h')"
  shows "length h \<le> length h' \<and> (\<forall>a < length h. a \<noteq> r \<longrightarrow> h' ! a = h ! a) \<and>
         (case res of Inl x \<Rightarrow> True | Inr r' \<Rightarrow> r' < length h' \<and> (r' = r \<or> length h \<le> r'))"
proof -
  from assms(1) have "\<forall>h r args kw. r < length h \<longrightarrow>
        (case f h r args kw of
           (res, h') \<Rightarrow>
             length h \<le> length h' \<and>
             (\<forall>a < length h. a \<noteq> r \<longrightarrow> h' ! a = h ! a) \<and>
             (case res of Inl x \<Rightarrow> True | Inr r' \<Rightarrow> r' < length h' \<and> (r' = r \<or> length h \<le> r')))"
    by (simp only: local_handler_def)
  then have "r < length h \<longrightarrow>
        (case f h r args kw of
           (res, h') \<Rightarrow>
             length h \<le> length h' \<and>
             (\<forall>a < length h. a \<noteq> r \<longrightarrow> h' ! a = h ! a) \<and>
             (case res of Inl x \<Rightarrow> True | Inr r' \<Rightarrow> r' < length h' \<and> (r' = r \<or> length h \<le> r')))"
    by (elim allE)
  from this assms(2) have "case f h r args kw of
           (res, h') \<Rightarrow>
             length h \<le> length h' \<and>
             (\<forall>a < length h. a \<noteq> r \<longrightarrow> h' ! a = h ! a) \<and>
             (case res of Inl x \<Rightarrow> True | Inr r' \<Rightarrow> r' < length h' \<and> (r' = r \<or> length h \<le> r'))"
    by (rule mp)
  then show ?thesis unfolding assms(3) prod.case .
qed

lemma call_handler_local:
  assumes "local_handler f" and "r < length h" and "call_handler f h r args kw = (res, h')"
  shows "length h \<le> length h'"
    and "\<And>a. a < length h \<Longrightarrow> a \<noteq> r \<Longrightarrow> h' ! a = h ! a"
    and "\<And>r'. res = Inr r' \<Longrightarrow> r' < length h' \<and> (r' = r \<or> length h \<le> r')"
proof -
  have *: "length h \<le> length h' \<and> (\<forall>a < length h. a \<noteq> r \<longrightarrow> h' ! a = h ! a) \<and>
           (case res of Inl x \<Rightarrow> True | Inr r' \<Rightarrow> r' < length h' \<and> (r' = r \<or> length h \<le> r'))"
  proof (cases "map_of kw ''self'' \<noteq> None \<or> map_of kw ''df'' \<noteq> None")
    case True
    then have "call_handler f h r args kw = (Inl (TypeError ''got multiple values for argument''), h)"
      unfolding call_handler_def by (rule if_P)
    with assms(3) have "res = Inl (TypeError ''got multiple values for argument'')" "h' = h" by simp_all
    then show ?thesis by simp
  next
    case False
    then have "call_handler f h r args kw = f h r args kw"
      unfolding call_handler_def by (rule if_not_P)
    with assms(3) have "f h r args kw = (res, h')" by simp
    with assms(1,2) show ?thesis by (rule local_handlerD)
  qed
  from * show "length h \<le> length h'" by (rule conjunct1)
  from * have 2: "\<forall>a < length h. a \<noteq> r \<longrightarrow> h' ! a = h ! a" by blast
  then show "\<And>a. a < length h \<Longrightarrow> a \<noteq> r \<Longrightarrow> h' ! a = h ! a" by blast
  from * have 3: "case res of Inl x \<Rightarrow> True | Inr r' \<Rightarrow> r' < length h' \<and> (r' = r \<or> length h \<le> r')"
    by blast
  show "\<And>r'. res = Inr r' \<Longrightarrow> r' < length h' \<and> (r' = r \<or> length h \<le> r')"
    using 3 by simp
qed

text \<open>
  The loop with handlers that keep to their own frames, started on a frame \<open>r\<close> at or
  above \<open>n\<close>: the frames below \<open>n\<close> stay as they are, and \<open>result\<close> stays at or above \<open>n\<close>.
\<close>

lemma run_operations_local:
  assumes loc: "\<forall>name f. map_of (functions_map e) name = Some f \<longrightarrow> local_handler f"
    and "n \<le> r" "r < length h" "run_operations e h r ops = (res, h')"
  shows "length h \<le> length h' \<and> (\<forall>a < n. h' ! a = h ! a) \<and>
         (\<forall>r'. res = Inr r' \<longrightarrow> n \<le> r' \<and> r' < length h')"
  using assms(2-)
proof (induction ops arbitrary: h r)
  case Nil
  then show ?case by auto
next
  case (Cons operation ops)
  show ?case
  proof (cases "map_of (functions_map e) (op_function operation)")
    case None
    with Cons.prems show ?thesis by auto
  next
    case (Some f)
    obtain res1 h1 where c: "call_handler f h r (op_args operation) (op_kwargs operation) = (res1, h1)"
      by (cases "call_handler f h r (op_args operation) (op_kwargs operation)") auto
    note l = call_handler_local[OF loc[rule_format, OF Some] Cons.prems(2) c]
    show ?thesis
    proof (cases res1)
      case (Inl x)
      with Some c Cons.prems(3) have "res = Inl x" "h' = h1" by auto
      with l(1,2) Cons.prems(1,2) show ?thesis by auto
    next
      case (Inr r1)
      with Some c Cons.prems(3) have run: "run_operations e h1 r1 ops = (res, h')" by auto
      from l(3)[OF Inr] Cons.prems(1,2) have r1: "n \<le> r1" "r1 < length h1" by auto
      from Cons.IH[OF r1 run] have ih: "length h1 \<le> length h'" "\<forall>a < n. h' ! a = h1 ! a"
        "\<forall>r'. res = Inr r' \<longrightarrow> n \<le> r' \<and> r' < length h'" by auto
      have "h' ! a = h ! a" if "a < n" for a
      proof -
        from that Cons.prems(1,2) have "a < length h" "a \<noteq> r" by auto
        then have "h1 ! a = h ! a" by (rule l(2))
        with ih(2) that show ?thesis by simp
      qed
      with ih(1,3) l(1) show ?thesis by auto
    qed
  qed
qed

text \<open>
  \<open>execute_query\<close> for every engine whose handlers keep to their own frames, handlers that
  write the frame they are given among them: the loop starts on the copy, so no frame
  that existed before the call is written and the result is none of them.
\<close>

lemma execute_query_local:
  assumes loc: "\<forall>name f. map_of (functions_map e) name = Some f \<longrightarrow> local_handler f"
    and d: "df e < length h"
    and ex: "execute_query e h q = (res, h')"
  shows "length h < length h'" and "\<And>a. a < length h \<Longrightarrow> h' ! a = h ! a"
    and "\<And>r. res = Inr r \<Longrightarrow> length h \<le> r \<and> r < length h'"
proof -
  let ?h1 = "h @ [h ! df e]"
  obtain res1 h1 where run: "run_operations e ?h1 (length h) (parse_query q) = (res1, h1)"
    by (cases "run_operations e ?h1 (length h) (parse_query q)") auto
  have "length h \<le> length h" "length h < length ?h1" by simp_all
  from run_operations_local[OF loc this run]
  have 1: "length ?h1 \<le> length h1" "\<forall>a < length h. h1 ! a = ?h1 ! a"
    "\<forall>r'. res1 = Inr r' \<longrightarrow> length h \<le> r' \<and> r' < length h1" by auto
  from ex run have h': "h' = h1" and res: "\<And>r. res = Inr r \<Longrightarrow> res1 = Inr r"
    by (auto simp: execute_query_def copy_frame_def split: sum.splits)
  from 1(1) show "length h < length h'" by (simp add: h')
  from 1(2) show "\<And>a. a < length h \<Longrightarrow> h' ! a = h ! a" by (simp add: h' nth_append)
  from 1(3) res show "\<And>r. res = Inr r \<Longrightarrow> length h \<le> r \<and> r < length h'" by (simp add: h')
qed

text \<open>
  C1, as amended. A query whose parsed pipeline holds a stage with a keyword outside
  the engine's registry returns no table: it ends in one \<open>ValueError\<close> whose message is
  \<open>"Query execution error: "\<close> followed by a cause. When every stage before that one
  succeeds, the cause is \<open>"Unknown function: <name>"\<close>, so the message is
  \<open>"Query execution error: Unknown function: <name>"\<close>: the \<open>raise\<close> for an unknown
  keyword stands inside the \<open>try\<close> and goes through the same wrapper as a stage failure.
\<close>

theorem unknown_function_error:
  assumes "parse_query q = pre @ bad # post"
    and "map_of (functions_map e) (op_function bad) = None"
  shows "(\<exists>cause. fst (execute_query e h q) = Inl (ValueError (''Query execution error: '' @ cause))) \<and>
         ((\<exists>r. fst (run_operations e (h @ [h ! df e]) (length h) pre) = Inr r) \<longrightarrow>
            fst (execute_query e h q) =
              Inl (ValueError (''Query execution error: Unknown function: '' @ op_function bad)))"
proof -
  let ?h1 = "h @ [h ! df e]"
  obtain res h' where pre: "run_operations e ?h1 (length h) pre = (res, h')"
    by (cases "run_operations e ?h1 (length h) pre") auto
  have bad: "\<And>h r. run_operations e h r (bad # post) =
      (Inl (ValueError (''Unknown function: '' @ op_function bad)), h)"
    using assms(2) by simp
  show ?thesis
  proof (cases res)
    case (Inl x)
    then show ?thesis
      using pre assms(1) by (simp add: execute_query_def copy_frame_def run_operations_append)
  next
    case (Inr r)
    then show ?thesis
      using pre assms(1) bad
      by (simp add: execute_query_def copy_frame_def run_operations_append)
  qed
qed

lemma engine_x_eq:
  "engine_x = \<lparr>df = 1, table_name = ''Data'', functions_map = initialize_functions lib0\<rparr>"
  "heap_x = [table_x, table_x]"
  by (simp_all add: engine_x_def heap_x_def new_engine_def copy_frame_def)

lemma parse_take_foo:
  "parse_query ''take 1 | foo | sort x'' =
     [\<lparr>op_function = ''take'', op_args = [VInt 1], op_kwargs = []\<rparr>] @
     \<lparr>op_function = ''foo'', op_args = [], op_kwargs = []\<rparr> #
     [\<lparr>op_function = ''sort'', op_args = [VStr ''x''], op_kwargs = []\<rparr>]"
  by code_simp

theorem unknown_function_error_witness:
  "parse_query ''take 1 | foo | sort x'' =
     [\<lparr>op_function = ''take'', op_args = [VInt 1], op_kwargs = []\<rparr>] @
     \<lparr>op_function = ''foo'', op_args = [], op_kwargs = []\<rparr> #
     [\<lparr>op_function = ''sort'', op_args = [VStr ''x''], op_kwargs = []\<rparr>] \<and>
   map_of (functions_map engine_x) ''foo'' = None \<and>
   fst (execute_query engine_x heap_x ''take 1 | foo | sort x'') =
     Inl (ValueError ''Query execution error: Unknown function: foo'')"
proof -
  have known: "map_of (functions_map engine_x) ''foo'' = None"
    by (simp add: engine_x_eq initialize_functions_def)
  have pre: "fst (run_operations engine_x (heap_x @ [heap_x ! df engine_x]) (length heap_x)
               [\<lparr>op_function = ''take'', op_args = [VInt 1], op_kwargs = []\<rparr>]) = Inr 3"
    by (simp add: engine_x_eq initialize_functions_def call_handler_def bound_method_def take_returns_df_def
          op_take_def py_int_of_def)
  from unknown_function_error[OF parse_take_foo, of engine_x heap_x] known pre
  show ?thesis using parse_take_foo by simp
qed

text \<open>
  The claim as stated fails: the message for an unknown keyword is not
  \<open>"Unknown function: foo"\<close> but that text behind the prefix of stage failures.
\<close>

theorem unknown_function_message_counterexample:
  "fst (execute_query engine_x heap_x ''foo'') =
     Inl (ValueError ''Query execution error: Unknown function: foo'') \<and>
   fst (execute_query engine_x heap_x ''foo'') \<noteq> Inl (ValueError ''Unknown function: foo'')"
proof -
  have p: "parse_query ''foo'' = [\<lparr>op_function = ''foo'', op_args = [], op_kwargs = []\<rparr>]"
    by code_simp
  show ?thesis
    by (simp add: execute_query_def p copy_frame_def engine_x_eq initialize_functions_def)
qed

text \<open>
  C8. For an engine with the registry of \<open>_initialize_functions\<close> and every query,
  \<open>execute_query\<close> writes no frame that existed before the call, whether it returns a
  table or raises: the heap after the call starts with the heap before it, so the frame
  the engine holds has the content it had. And the loop runs on the copy
  \<open>self.df.copy()\<close>: the frame returned was allocated during the call and is not the
  engine's, so that writing it afterwards leaves the engine's table as it is.
\<close>

theorem execute_query_keeps_engine_table:
  assumes "functions_map e = initialize_functions lib" and "df e < length h"
  shows "take (length h) (snd (execute_query e h q)) = h \<and>
         snd (execute_query e h q) ! df e = h ! df e \<and>
         (\<forall>r. fst (execute_query e h q) = Inr r \<longrightarrow>
            length h \<le> r \<and> r < length (snd (execute_query e h q)) \<and> r \<noteq> df e \<and>
            (\<forall>t. (snd (execute_query e h q))[r := t] ! df e = h ! df e))"
proof -
  obtain res h' where ex: "execute_query e h q = (res, h')"
    by (cases "execute_query e h q") auto
  have loc: "\<forall>name f. map_of (functions_map e) name = Some f \<longrightarrow> local_handler f"
    unfolding assms(1) using initialize_functions_local by blast
  note l = execute_query_local[OF loc assms(2) ex]
  have 1: "take (length h) h' = h"
  proof (rule nth_equalityI)
    from l(1) show "length (take (length h) h') = length h" by simp
    fix a assume "a < length (take (length h) h')"
    then have "a < length h" by simp
    then show "take (length h) h' ! a = h ! a" using l(2) by simp
  qed
  have 2: "h' ! df e = h ! df e" by (rule l(2)[OF assms(2)])
  have 3: "length h \<le> r \<and> r < length h' \<and> r \<noteq> df e \<and> (\<forall>t. h'[r := t] ! df e = h ! df e)"
    if "res = Inr r" for r
  proof -
    from l(3)[OF that] have r: "length h \<le> r" "r < length h'" by simp_all
    with assms(2) have ne: "r \<noteq> df e" by simp
    then have "h'[r := t] ! df e = h ! df e" for t using 2 by simp
    with r ne show ?thesis by simp
  qed
  from 1 2 3 show ?thesis by (simp add: ex)
qed

theorem execute_query_keeps_engine_table_witness:
  "functions_map engine_x = initialize_functions lib0 \<and>
   df engine_x < length heap_x \<and>
   df engine_x = 1 \<and>
   fst (execute_query engine_x heap_x ''join'') = Inr 2 \<and>
   snd (execute_query engine_x heap_x ''join'') ! df engine_x = table_x"
proof -
  have f: "functions_map engine_x = initialize_functions lib0" by (simp add: engine_x_eq)
  have lt: "df engine_x < length heap_x" by (simp add: engine_x_eq)
  have d: "df engine_x = 1" by (simp add: engine_x_eq)
  have r: "fst (execute_query engine_x heap_x ''join'') = Inr 2" by code_simp
  have t: "heap_x ! df engine_x = table_x" by (simp add: engine_x_eq)
  from execute_query_keeps_engine_table[OF f lt, of "''join''"]
  have "snd (execute_query engine_x heap_x ''join'') ! df engine_x = heap_x ! df engine_x"
    by blast
  with t have "snd (execute_query engine_x heap_x ''join'') ! df engine_x = table_x" by simp
  with f lt d r show ?thesis by blast
qed

subsection \<open>\<open>summarize\<close> without group-by columns\<close>

text \<open>
  C2 does not hold of the code. On the two-row table \<open>table_gv\<close> with the columns
  \<open>g\<close> and \<open>v\<close>, \<open>summarize\<close> with the argument \<open>total=sum(v)\<close> (one aggregation, no group-by
  column) returns no table: \<open>df.agg(agg_dict)\<close> takes the result name \<open>total\<close> for a column
  of the table and raises \<open>KeyError\<close>, for every library.
\<close>

theorem summarize_without_group_by_raises:
  "op_summarize lib table_gv [VStr ''total=sum(v)''] [] = Inl (missing_columns_error [''total''])"
proof -
  have p: "summarize_parse ''total=sum(v)'' = ([(''total'', ''v'', ''sum'')], [])" by code_simp
  show ?thesis
    by (simp add: op_summarize_def p df_agg_def colnames_def table_gv_def)
qed


subsection \<open>Counting rows by group\<close>

text \<open>
  C3, as amended. On a table with a column \<open>g\<close> whose cells are scalars and a column
  \<open>v\<close>, \<open>summarize\<close> with the aggregation \<open>cnt=count(v)\<close> and the group-by column \<open>g\<close>
  (the argument \<open>cnt=count(v), g\<close>: group-by columns are the comma-separated tokens
  without \<open>=\<close>) returns a table with the columns \<open>g, cnt\<close> and the labels \<open>0, 1, ...\<close>
  that has one row per distinct non-missing value of \<open>g\<close> in the input, in strictly
  ascending order of \<open>g\<close>; each \<open>cnt\<close> is the number of input rows with that value of
  \<open>g\<close>, and the \<open>cnt\<close> column sums to the number of input rows whose \<open>g\<close> is not missing.
\<close>

theorem summarize_count_by_group:
  assumes pg: "index_of ''g'' (colnames t) = Some pg"
    and v: "''v'' \<in> set (colnames t)"
    and nl: "\<forall>r \<in> set (rows t). \<not> is_list (snd r ! pg)"
  shows "\<exists>out. op_summarize lib t (VStr ''cnt=count(v), g'' # args) kw = Inr out \<and>
     colnames out = [''g'', ''cnt''] \<and>
     labels out = range_index (length (rows out)) \<and>
     set (column_values out 0) \<subseteq> set (present_keys t pg) \<and>
     canon ` set (column_values out 0) = canon ` set (present_keys t pg) \<and>
     sorted_wrt (\<lambda>a b. key_le a b \<and> canon a \<noteq> canon b) (column_values out 0) \<and>
     (\<forall>r \<in> set (rows out).
        snd r ! 1 = VInt (int (length (filter (\<lambda>x. canon x = canon (snd r ! 0)) (present_keys t pg))))) \<and>
     sum_list (map (\<lambda>r. int_of (snd r ! 1)) (rows out)) = int (length (present_keys t pg))"
proof -
  define f :: "int \<times> val list \<Rightarrow> val" where "f = (\<lambda>r. snd r ! pg)"
  define valid where "valid = valid_rows [pg] (rows t)"
  define ks where "ks = sort_by (lex_le True) (remdups (map (group_keys [pg]) valid))"
  define grp where "grp = (\<lambda>k. filter (\<lambda>r. group_keys [pg] r = k) valid)"
  define G where "G = (\<lambda>k. f (hd (grp k)))"
  define outs where "outs = map (\<lambda>k. [G k, VInt (int (length (grp k)))]) ks"
  define out where "out = \<lparr>columns = [columns t ! pg, (''cnt'', Int64)],
                            rows = zip (range_index (length ks)) outs\<rparr>"
  have K: "group_keys [pg] r = [canon (f r)]" for r by (simp add: group_keys_def f_def)
  have valid_eq: "valid = filter (\<lambda>r. f r \<noteq> VNull) (rows t)"
    by (simp add: valid_def valid_rows_def f_def)
  have keys: "present_keys t pg = map f valid"
    by (simp add: present_keys_def column_values_def valid_eq filter_map comp_def f_def)
  have res: "op_summarize lib t (VStr ''cnt=count(v), g'' # args) kw = Inr out"
    using count_groups[OF pg v nl, of "''cnt''" lib]
    by (simp add: op_summarize_def summarize_parse_count_by out_def outs_def G_def f_def
          ks_def grp_def valid_def)
  have louts: "length outs = length ks" by (simp add: outs_def)
  have rows: "rows out = zip (range_index (length ks)) outs" by (simp add: out_def)
  have lrows: "length (rows out) = length ks" by (simp add: rows louts range_index_def)
  have snd_rows: "map snd (rows out) = outs" by (simp add: rows louts range_index_def)
  have cn: "colnames out = [''g'', ''cnt'']"
  proof -
    from index_of_Some[OF pg] have l: "pg < length (columns t)"
      and e: "map fst (columns t) ! pg = ''g''" by (simp_all add: colnames_def)
    from l have "map fst (columns t) ! pg = fst (columns t ! pg)" by (rule nth_map)
    with e show ?thesis by (simp add: out_def colnames_def)
  qed
  have lb: "labels out = range_index (length (rows out))"
    unfolding lrows by (simp add: labels_def rows louts range_index_def)
  have gs: "column_values out 0 = map G ks"
  proof -
    have "column_values out 0 = map (\<lambda>cells. cells ! 0) (map snd (rows out))"
      by (simp add: column_values_def)
    also have "\<dots> = map G ks" unfolding snd_rows by (simp add: outs_def)
    finally show ?thesis .
  qed
  have kset: "set ks = set (map (group_keys [pg]) valid)" by (simp add: ks_def set_sort_by)
  have kd: "distinct ks" by (simp add: ks_def distinct_sort_by)
  have grp_k: "grp k \<noteq> [] \<and> hd (grp k) \<in> set valid \<and> [canon (G k)] = k" if "k \<in> set ks" for k
    using group_nonempty[of k "lex_le True" "[pg]" valid] that
    by (simp add: ks_def grp_def G_def K)
  have sub: "set (column_values out 0) \<subseteq> set (present_keys t pg)"
    unfolding gs keys using grp_k by (auto simp: G_def)
  have kg: "map (\<lambda>x. [canon x]) (map G ks) = ks"
    using grp_k by (simp add: map_idI)
  have img: "canon ` set (column_values out 0) = canon ` set (present_keys t pg)"
  proof -
    have "(\<lambda>x. [canon x]) ` set (map G ks) = (\<lambda>x. [canon x]) ` set (map f valid)"
    proof -
      have "(\<lambda>x. [canon x]) ` set (map G ks) = set (map (\<lambda>x. [canon x]) (map G ks))"
        by (simp only: set_map)
      also have "\<dots> = set ks" unfolding kg ..
      also have "\<dots> = (\<lambda>x. [canon x]) ` set (map f valid)" unfolding kset by (auto simp: K)
      finally show ?thesis .
    qed
    then have "hd ` (\<lambda>x. [canon x]) ` set (map G ks) = hd ` (\<lambda>x. [canon x]) ` set (map f valid)"
      by simp
    then show ?thesis unfolding gs keys by (simp add: image_image)
  qed
  have srt: "sorted_wrt (\<lambda>a b. key_le a b \<and> canon a \<noteq> canon b) (column_values out 0)"
  proof -
    define D :: "val list \<Rightarrow> bool" where "D = (\<lambda>k. length k = 1 \<and> (\<forall>x \<in> set k. \<not> is_list x))"
    have Dk: "\<forall>k \<in> set (remdups (map (group_keys [pg]) valid)). D k"
      using nl by (auto simp: D_def K is_list_canon valid_eq f_def)
    have "sorted_wrt (lex_le True) (sort_by (lex_le True) (remdups (map (group_keys [pg]) valid)))"
    proof (rule sorted_sort_by[where D = D])
      show "\<And>x y. D x \<Longrightarrow> D y \<Longrightarrow> lex_le True x y \<or> lex_le True y x"
        by (rule lex_le_total) (simp add: D_def)
      show "\<And>x y z. D x \<Longrightarrow> D y \<Longrightarrow> D z \<Longrightarrow> lex_le True x y \<Longrightarrow> lex_le True y z \<Longrightarrow> lex_le True x z"
        by (rule lex_le_trans) (simp_all add: D_def)
      show "\<forall>y \<in> set (remdups (map (group_keys [pg]) valid)). D y" by (rule Dk)
    qed
    then have "sorted_wrt (lex_le True) ks" unfolding ks_def .
    then have "sorted_wrt (lex_le True) (map (\<lambda>x. [canon x]) (map G ks))"
      by (simp only: kg)
    then have 1: "sorted_wrt (\<lambda>a b. lex_le True [canon a] [canon b]) (map G ks)"
      by (simp add: sorted_wrt_map)
    from kd have "distinct (map (\<lambda>x. [canon x]) (map G ks))" unfolding kg .
    then have "distinct (map canon (map G ks))" by (simp add: distinct_map comp_def inj_on_def)
    then have "sorted_wrt (\<lambda>x y. x \<noteq> y) (map canon (map G ks))" by (rule distinct_sorted_wrt_neq)
    then have 2: "sorted_wrt (\<lambda>a b. canon a \<noteq> canon b) (map G ks)" by (simp add: sorted_wrt_map)
    from 1 2 have 3: "sorted_wrt (\<lambda>a b. lex_le True [canon a] [canon b] \<and> canon a \<noteq> canon b) (map G ks)"
      by (rule sorted_wrt_conj)
    have nn: "\<forall>a \<in> set (map G ks). a \<noteq> VNull"
      using sub unfolding gs by (auto simp: present_keys_def)
    have "sorted_wrt (\<lambda>a b. key_le a b \<and> canon a \<noteq> canon b) (map G ks)"
    proof (rule sorted_wrt_mono_rel[OF _ 3])
      fix a b assume a: "a \<in> set (map G ks)" and b: "b \<in> set (map G ks)"
        and h: "lex_le True [canon a] [canon b] \<and> canon a \<noteq> canon b"
      from a b nn have an: "canon a \<noteq> VNull" and bn: "canon b \<noteq> VNull" by (auto simp: canon_Null)
      from h have "cell_le True (canon a) (canon b)" by (simp add: canon_idem)
      with an bn have "key_le (canon a) (canon b)" by (simp add: cell_le_def)
      then have "key_le a b"
        using key_le_canon_cong[OF canon_idem[of a], of "canon b"]
              key_le_canon_cong[OF canon_idem[of b], of a] by simp
      with h show "key_le a b \<and> canon a \<noteq> canon b" by simp
    qed
    then show ?thesis unfolding gs .
  qed
  have grp_len: "length (grp k) = length (filter (\<lambda>x. canon x = canon (G k)) (present_keys t pg))"
    if k: "k \<in> set ks" for k
  proof -
    from grp_k[OF k] have e: "k = [canon (G k)]" by simp
    have "grp k = filter (\<lambda>r. [canon (f r)] = k) valid" by (simp add: grp_def K)
    also have "\<dots> = filter (\<lambda>r. canon (f r) = canon (G k)) valid"
      by (rule filter_cong) (use e in auto)
    finally have "length (grp k) = length (filter (\<lambda>r. canon (f r) = canon (G k)) valid)" by simp
    also have "\<dots> = length (filter (\<lambda>x. canon x = canon (G k)) (map f valid))"
      by (simp add: filter_map comp_def)
    finally show ?thesis unfolding keys .
  qed
  have cnt: "\<forall>r \<in> set (rows out).
        snd r ! 1 = VInt (int (length (filter (\<lambda>x. canon x = canon (snd r ! 0)) (present_keys t pg))))"
  proof
    fix r assume "r \<in> set (rows out)"
    then have "snd r \<in> set (map snd (rows out))" by simp
    then have "snd r \<in> set outs" unfolding snd_rows .
    then obtain k where k: "k \<in> set ks" and r: "snd r = [G k, VInt (int (length (grp k)))]"
      by (auto simp: outs_def)
    show "snd r ! 1 = VInt (int (length (filter (\<lambda>x. canon x = canon (snd r ! 0)) (present_keys t pg))))"
      unfolding r using grp_len[OF k] by simp
  qed
  have total: "sum_list (map (\<lambda>r. int_of (snd r ! 1)) (rows out)) = int (length (present_keys t pg))"
  proof -
    have "map (\<lambda>r. int_of (snd r ! 1)) (rows out) = map (\<lambda>cells. int_of (cells ! 1)) (map snd (rows out))"
      by simp
    also have "\<dots> = map (\<lambda>k. int (length (grp k))) ks"
      unfolding snd_rows by (simp add: outs_def int_of_def)
    finally have "sum_list (map (\<lambda>r. int_of (snd r ! 1)) (rows out)) =
                  sum_list (map (\<lambda>k. int (length (grp k))) ks)" by simp
    also have "\<dots> = int (sum_list (map (\<lambda>k. length (grp k)) ks))"
      by (induction ks) simp_all
    also have "sum_list (map (\<lambda>k. length (grp k)) ks) = length valid"
      unfolding grp_def by (rule sum_group_sizes[OF kd]) (simp add: kset)
    finally show ?thesis by (simp add: keys)
  qed
  from res cn lb sub img srt cnt total show ?thesis by blast
qed

theorem summarize_count_by_group_witness:
  "index_of ''g'' (colnames table_gv) = Some 0 \<and>
   ''v'' \<in> set (colnames table_gv) \<and>
   list_all (\<lambda>r. \<not> is_list (snd r ! 0)) (rows table_gv) \<and>
   present_keys table_gv 0 = [VFloat 1] \<and>
   (\<exists>out. op_summarize lib0 table_gv [VStr ''cnt=count(v), g''] [] = Inr out \<and>
      colnames out = [''g'', ''cnt''] \<and>
      labels out = range_index (length (rows out)) \<and>
      set (column_values out 0) \<subseteq> {VFloat 1} \<and>
      canon ` set (column_values out 0) = canon ` {VFloat 1} \<and>
      sum_list (map (\<lambda>r. int_of (snd r ! 1)) (rows out)) = 1)"
proof -
  have a: "index_of ''g'' (colnames table_gv) = Some 0" by code_simp
  have b: "''v'' \<in> set (colnames table_gv)" by code_simp
  have c: "list_all (\<lambda>r. \<not> is_list (snd r ! 0)) (rows table_gv)" by code_simp
  then have c': "\<forall>r \<in> set (rows table_gv). \<not> is_list (snd r ! 0)" by (simp only: list_all_iff)
  have d: "present_keys table_gv 0 = [VFloat 1]" by code_simp
  from summarize_count_by_group[OF a b c', of lib0 "[]" "[]"]
  obtain out where o: "op_summarize lib0 table_gv [VStr ''cnt=count(v), g''] [] = Inr out"
      "colnames out = [''g'', ''cnt'']"
      "labels out = range_index (length (rows out))"
      "set (column_values out 0) \<subseteq> set (present_keys table_gv 0)"
      "canon ` set (column_values out 0) = canon ` set (present_keys table_gv 0)"
      "sum_list (map (\<lambda>r. int_of (snd r ! 1)) (rows out)) = int (length (present_keys table_gv 0))"
    by blast
  from o(4) have o4: "set (column_values out 0) \<subseteq> {VFloat 1}" unfolding d by simp
  from o(5) have o5: "canon ` set (column_values out 0) = canon ` {VFloat 1}" unfolding d by simp
  from o(6) have o6: "sum_list (map (\<lambda>r. int_of (snd r ! 1)) (rows out)) = 1" unfolding d by simp
  from o(1,2,3) o4 o5 o6 have "\<exists>out. op_summarize lib0 table_gv [VStr ''cnt=count(v), g''] [] = Inr out \<and>
      colnames out = [''g'', ''cnt''] \<and>
      labels out = range_index (length (rows out)) \<and>
      set (column_values out 0) \<subseteq> {VFloat 1} \<and>
      canon ` set (column_values out 0) = canon ` {VFloat 1} \<and>
      sum_list (map (\<lambda>r. int_of (snd r ! 1)) (rows out)) = 1" by blast
  with a b c d show ?thesis by blast
qed

text \<open>
  The claim as stated fails. The first row of \<open>table_gv\<close> has no value of \<open>g\<close>: it is in
  no group, and the counts sum to 1 on a table of 2 rows. And the stage written
  \<open>summarize cnt=count(v) by g\<close> in a query is one named argument \<open>cnt\<close>, which
  \<open>_summarize\<close> does not read: the query returns the table as it is.
\<close>

theorem summarize_count_by_group_counterexample:
  "column_values table_gv 0 = [VNull, VFloat 1] \<and>
   length (rows table_gv) = 2 \<and>
   op_summarize lib0 table_gv [VStr ''cnt=count(v), g''] [] =
     Inr \<lparr>columns = [(''g'', Float64), (''cnt'', Int64)], rows = [(0, [VFloat 1, VInt 1])]\<rparr> \<and>
   query_result engine_gv heap_gv ''summarize cnt=count(v) by g'' = Inr table_gv \<and>
   colnames table_gv = [''g'', ''v'']"
proof -
  have a: "column_values table_gv 0 = [VNull, VFloat 1]" by code_simp
  have b: "length (rows table_gv) = 2" by code_simp
  have c: "op_summarize lib0 table_gv [VStr ''cnt=count(v), g''] [] =
     Inr \<lparr>columns = [(''g'', Float64), (''cnt'', Int64)], rows = [(0, [VFloat 1, VInt 1])]\<rparr>"
    by code_simp
  have d: "query_result engine_gv heap_gv ''summarize cnt=count(v) by g'' = Inr table_gv"
    by code_simp
  have e: "colnames table_gv = [''g'', ''v'']" by code_simp
  from a b c d e show ?thesis by blast
qed


subsection \<open>\<open>where\<close>: the rows kept\<close>

lemma cond_series_holds:
  assumes "cond_series lib t p = Inr series"
  shows "length series = length (rows t) \<and> (\<forall>i < length (rows t). series ! i = holds_at lib t p i)"
proof -
  obtain w col vtext where p: "p = (w, col, vtext)" by (cases p) auto
  from assms obtain pos where pos: "index_of col (colnames t) = Some pos"
    by (cases "index_of col (colnames t)") (auto simp: p cond_series_def getitem_def)
  let ?vals = "column_values t pos"
  let ?v = "parse_value vtext"
  have len: "length ?vals = length (rows t)" by (simp add: column_values_def)
  have nth: "\<And>i. i < length (rows t) \<Longrightarrow> ?vals ! i = snd (rows t ! i) ! pos"
    by (simp add: column_values_def)
  consider (contains) "w = OpContains" | (starts) "w = OpStartswith" | (ends) "w = OpEndswith"
    | (cmp) "w \<noteq> OpContains" "w \<noteq> OpStartswith" "w \<noteq> OpEndswith" by blast
  then show ?thesis
  proof cases
    case contains
    with assms pos have "map (\<lambda>x. regex_search lib (py_str lib ?v) (py_str lib x)) ?vals = map Inr series"
      by (simp add: p cond_series_def getitem_def Let_def sequence_Inr_iff)
    then have l: "length series = length ?vals"
      and n: "\<And>i. i < length ?vals \<Longrightarrow>
                regex_search lib (py_str lib ?v) (py_str lib (?vals ! i)) = Inr (series ! i)"
      by (auto simp: list_eq_iff_nth_eq)
    show ?thesis using l n len nth contains pos
      by (auto simp: holds_at_def p Let_def)
  next
    case starts
    with assms pos have "series = map (\<lambda>x. str_startswith (py_str lib x) (py_str lib ?v)) ?vals"
      by (simp add: p cond_series_def getitem_def Let_def)
    then show ?thesis using len nth starts pos
      by (auto simp: holds_at_def p Let_def)
  next
    case ends
    with assms pos have "series = map (\<lambda>x. str_endswith (py_str lib x) (py_str lib ?v)) ?vals"
      by (simp add: p cond_series_def getitem_def Let_def)
    then show ?thesis using len nth ends pos
      by (auto simp: holds_at_def p Let_def)
  next
    case cmp
    with assms pos have sc: "series_cmp w (snd (columns t ! pos)) ?vals ?v = Inr series"
      by (simp add: p cond_series_def getitem_def Let_def)
    show ?thesis
    proof (cases "is_list ?v")
      case True
      then obtain items where items: "?v = VList items" by (cases ?v) (auto simp: is_list_def)
      from sc items have le: "length items = length ?vals"
        and m: "map (\<lambda>(x, y). elem_cmp w x y) (zip ?vals items) = map Inr series"
        by (auto simp: series_cmp_def sequence_Inr_iff split: if_splits)
      from m le have l: "length series = length ?vals"
        and n: "\<And>i. i < length ?vals \<Longrightarrow> elem_cmp w (?vals ! i) (items ! i) = Inr (series ! i)"
        by (auto simp: list_eq_iff_nth_eq)
      show ?thesis using l n len nth cmp pos items
        by (auto simp: holds_at_def p Let_def)
    next
      case False
      with sc have m: "map (\<lambda>x. elem_cmp w x ?v) ?vals = map Inr series"
        by (cases ?v) (auto simp: series_cmp_def sequence_Inr_iff is_list_def split: if_splits)
      then have l: "length series = length ?vals"
        and n: "\<And>i. i < length ?vals \<Longrightarrow> elem_cmp w (?vals ! i) ?v = Inr (series ! i)"
        by (auto simp: list_eq_iff_nth_eq)
      have lit: "(case ?v of VList items \<Rightarrow> items ! i | _ \<Rightarrow> ?v) = ?v" for i
        using False by (cases ?v) (auto simp: is_list_def)
      show ?thesis using l n len nth cmp pos lit
        by (auto simp: holds_at_def p Let_def)
    qed
  qed
qed

lemma where_loop_invariant:
  assumes "where_loop lib t conds m = Inr m'"
  shows "length m' = length m \<and>
         (\<forall>j < length m. m' ! j =
            (m ! j \<and> (\<forall>p \<in> set (List.map_filter (\<lambda>c. classify (str_strip c)) conds). true_at lib t p j))) \<and>
         (List.map_filter (\<lambda>c. classify (str_strip c)) conds \<noteq> [] \<longrightarrow> distinct (labels t)) \<and>
         (\<forall>p \<in> set (List.map_filter (\<lambda>c. classify (str_strip c)) conds). \<exists>s. cond_series lib t p = Inr s)"
  using assms
proof (induction conds arbitrary: m)
  case Nil
  then show ?case by (simp add: map_filter_simps)
next
  case (Cons cond conds)
  show ?case
  proof (cases "classify (str_strip cond)")
    case None
    with Cons.prems have "where_loop lib t conds m = Inr m'" by simp
    from Cons.IH[OF this] None show ?thesis by (simp add: map_filter_simps)
  next
    case (Some p)
    from Cons.prems Some obtain series where s: "cond_series lib t p = Inr series"
      by (cases "cond_series lib t p") auto
    from Cons.prems Some s obtain m1 where m1: "mask_and (labels t) m series = Inr m1"
      by (cases "mask_and (labels t) m series") auto
    from Cons.prems Some s m1 have rest: "where_loop lib t conds m1 = Inr m'" by simp
    from m1 have d: "distinct (labels t)"
      and m1eq: "m1 = map (\<lambda>j. m ! j \<and> map_of (zip (labels t) series) (int j) = Some True) [0..<length m]"
      by (auto simp: mask_and_def split: if_splits)
    have l1: "length m1 = length m" using m1eq by simp
    have n1: "\<And>j. j < length m \<Longrightarrow> m1 ! j = (m ! j \<and> true_at lib t p j)"
      using m1eq s by (simp add: true_at_def)
    from Cons.IH[OF rest] l1 n1 d s Some show ?thesis
      by (auto simp: map_filter_simps)
  qed
qed

lemma where_loop_missing_column:
  assumes "p \<in> set (List.map_filter (\<lambda>c. classify (str_strip c)) conds)"
    and "fst (snd p) \<notin> set (colnames t)"
  shows "\<exists>e. where_loop lib t conds m = Inl e"
  using assms
proof (induction conds arbitrary: m)
  case Nil
  then show ?case by (simp add: map_filter_simps)
next
  case (Cons cond conds)
  show ?case
  proof (cases "classify (str_strip cond)")
    case None
    with Cons show ?thesis by (simp add: map_filter_simps)
  next
    case (Some q)
    show ?thesis
    proof (cases "cond_series lib t q")
      case (Inl e)
      with Some show ?thesis by simp
    next
      case (Inr series)
      have "q \<noteq> p"
      proof
        assume "q = p"
        obtain w col vtext where p: "p = (w, col, vtext)" by (cases p) auto
        with Cons.prems(2) have "index_of col (colnames t) = None" by (simp add: index_of_None_iff)
        with Inr \<open>q = p\<close> p show False by (simp add: cond_series_def getitem_def)
      qed
      with Cons.prems Some have in_rest: "p \<in> set (List.map_filter (\<lambda>c. classify (str_strip c)) conds)"
        by (simp add: map_filter_simps)
      show ?thesis
      proof (cases "mask_and (labels t) m series")
        case (Inl e)
        with Some Inr show ?thesis by simp
      next
        case r: (Inr m1)
        from Cons.IH[OF in_rest Cons.prems(2), of m1] Some Inr r show ?thesis by simp
      qed
    qed
  qed
qed

text \<open>
  C4. When a \<open>where\<close> stage with a condition string succeeds, its output rows are exactly
  the input rows, in their order, that satisfy every classified sub-condition of the
  conjunction (so every output row satisfies them all, and a row that satisfies them all
  is kept), and the output is no longer than the input. When a classified sub-condition
  names a column the table does not have, the stage fails.
\<close>

theorem where_keeps_rows_satisfying_all:
  "(op_where lib t (VStr c # args) kw = Inr t' \<longrightarrow>
      rows t' = map (\<lambda>i. rows t ! i)
                  (filter (\<lambda>i. \<forall>p \<in> set (predicates c). holds_at lib t p i) [0..<length (rows t)]) \<and>
      length (rows t') \<le> length (rows t)) \<and>
   ((\<exists>p \<in> set (predicates c). fst (snd p) \<notin> set (colnames t)) \<longrightarrow>
      (\<exists>e. op_where lib t (VStr c # args) kw = Inl e))"
proof (rule conjI; rule impI)
  assume ok: "op_where lib t (VStr c # args) kw = Inr t'"
  let ?n = "length (rows t)"
  let ?ps = "predicates c"
  let ?m0 = "replicate ?n True"
  from ok obtain m where loop: "where_loop lib t (sub_conditions c) ?m0 = Inr m"
    by (cases "where_loop lib t (sub_conditions c) ?m0") (auto simp: op_where_def Let_def)
  from ok loop have sel:
    "getitem_mask t (\<exists>cond \<in> set (sub_conditions c). classify (str_strip cond) \<noteq> None) m = Inr t'"
    by (simp add: op_where_def Let_def)
  from where_loop_invariant[OF loop]
  have lm: "length m = ?n"
    and mj: "\<And>j. j < ?n \<Longrightarrow> m ! j = (\<forall>p \<in> set ?ps. true_at lib t p j)"
    and dist: "?ps \<noteq> [] \<Longrightarrow> distinct (labels t)"
    and ser: "\<And>p. p \<in> set ?ps \<Longrightarrow> \<exists>s. cond_series lib t p = Inr s"
    by (auto simp: predicates_def)
  have applied: "(\<exists>cond \<in> set (sub_conditions c). classify (str_strip cond) \<noteq> None) \<longleftrightarrow> ?ps \<noteq> []"
    by (auto simp: predicates_def map_filter_def filter_empty_conv)
  show "rows t' = map (\<lambda>i. rows t ! i)
                  (filter (\<lambda>i. \<forall>p \<in> set ?ps. holds_at lib t p i) [0..<?n]) \<and>
        length (rows t') \<le> length (rows t)"
  proof (cases "m = [] \<and> ?ps = []")
    case True
    with lm have "rows t = []" by simp
    moreover from sel True applied have "t' = t\<lparr>columns := []\<rparr>" by (simp add: getitem_mask_def)
    ultimately show ?thesis by simp
  next
    case False
    with sel applied have inr: "\<forall>l \<in> set (labels t). 0 \<le> l \<and> l < int ?n"
      and t': "t' = t\<lparr>rows := filter (\<lambda>r. m ! nat (fst r)) (rows t)\<rparr>"
      using lm by (auto simp: getitem_mask_def split: if_splits)
    have key: "m ! nat (fst (rows t ! i)) = (\<forall>p \<in> set ?ps. holds_at lib t p i)" if i: "i < ?n" for i
    proof -
      let ?l = "fst (rows t ! i)"
      have li: "labels t ! i = ?l" using i by (simp add: labels_def)
      have "?l \<in> set (labels t)" using i by (auto simp: labels_def)
      with inr have rng: "0 \<le> ?l" "nat ?l < ?n" by auto
      have "m ! nat ?l = (\<forall>p \<in> set ?ps. true_at lib t p (nat ?l))" using mj rng by simp
      also have "\<dots> = (\<forall>p \<in> set ?ps. holds_at lib t p i)"
      proof (intro ball_cong refl)
        fix p assume p: "p \<in> set ?ps"
        then obtain s where s: "cond_series lib t p = Inr s" using ser by blast
        from cond_series_holds[OF s] have ls: "length s = ?n" and hs: "s ! i = holds_at lib t p i"
          using i by auto
        from p have "predicates c \<noteq> []" by (cases "predicates c") simp_all
        then have d: "distinct (labels t)" by (rule dist)
        have "map_of (zip (labels t) s) (labels t ! i) = Some (s ! i)"
          using d i ls by (intro map_of_zip_nth) (auto simp: labels_def)
        then show "true_at lib t p (nat ?l) = holds_at lib t p i"
          using s li rng hs by (simp add: true_at_def)
      qed
      finally show ?thesis .
    qed
    have "filter (\<lambda>r. m ! nat (fst r)) (rows t) =
          map (\<lambda>i. rows t ! i) (filter (\<lambda>i. m ! nat (fst (rows t ! i))) [0..<?n])"
      by (rule filter_as_positions)
    also have "filter (\<lambda>i. m ! nat (fst (rows t ! i))) [0..<?n] =
               filter (\<lambda>i. \<forall>p \<in> set ?ps. holds_at lib t p i) [0..<?n]"
      by (rule filter_cong) (auto simp: key)
    finally have eq: "filter (\<lambda>r. m ! nat (fst r)) (rows t) =
        map (\<lambda>i. rows t ! i) (filter (\<lambda>i. \<forall>p \<in> set ?ps. holds_at lib t p i) [0..<?n])" .
    have "length (filter (\<lambda>r. m ! nat (fst r)) (rows t)) \<le> length (rows t)"
      by (rule length_filter_le)
    with eq t' show ?thesis by simp
  qed
next
  assume "\<exists>p \<in> set (predicates c). fst (snd p) \<notin> set (colnames t)"
  then obtain p where "p \<in> set (List.map_filter (\<lambda>c. classify (str_strip c)) (sub_conditions c))"
    and "fst (snd p) \<notin> set (colnames t)"
    by (auto simp: predicates_def)
  from where_loop_missing_column[OF this, of lib "replicate (length (rows t)) True"]
  show "\<exists>e. op_where lib t (VStr c # args) kw = Inl e"
    by (auto simp: op_where_def Let_def)
qed


theorem where_keeps_rows_satisfying_all_witness:
  "op_where lib0 table_x [VStr ''x >= 2 and s = a''] [] =
     Inr (table_x\<lparr>rows := [(0, [VFloat 2, VStr ''a''])]\<rparr>) \<and>
   [(0, [VFloat 2, VStr ''a''])] =
     map (\<lambda>i. rows table_x ! i)
       (filter (\<lambda>i. \<forall>p \<in> set (predicates ''x >= 2 and s = a''). holds_at lib0 table_x p i)
          [0..<length (rows table_x)]) \<and>
   predicates ''y > 1'' = [(OpGt, ''y'', ''1'')] \<and>
   ''y'' \<notin> set (colnames table_x) \<and>
   (\<exists>e. op_where lib0 table_x [VStr ''y > 1''] [] = Inl e)"
proof -
  have a: "op_where lib0 table_x [VStr ''x >= 2 and s = a''] [] =
     Inr (table_x\<lparr>rows := [(0, [VFloat 2, VStr ''a''])]\<rparr>)"
    by code_simp
  have p: "predicates ''y > 1'' = [(OpGt, ''y'', ''1'')]" by code_simp
  have c: "''y'' \<notin> set (colnames table_x)" by (simp add: colnames_def table_x_def)
  from where_keeps_rows_satisfying_all[of lib0 table_x "''x >= 2 and s = a''" "[]" "[]"
      "table_x\<lparr>rows := [(0, [VFloat 2, VStr ''a''])]\<rparr>"] a
  have 1: "[(0, [VFloat 2, VStr ''a''])] =
     map (\<lambda>i. rows table_x ! i)
       (filter (\<lambda>i. \<forall>p \<in> set (predicates ''x >= 2 and s = a''). holds_at lib0 table_x p i)
          [0..<length (rows table_x)])"
    by simp
  from where_keeps_rows_satisfying_all[of lib0 table_x "''y > 1''" "[]" "[]"] p c
  have 2: "\<exists>e. op_where lib0 table_x [VStr ''y > 1''] [] = Inl e" by simp
  from a 1 p c 2 show ?thesis by blast
qed


subsection \<open>\<open>sort\<close>: the order of the rows\<close>

text \<open>
  C5, as amended. Let NumPy's \<open>argsort\<close> sort (it returns a permutation of the positions
  that puts comparable keys in ascending order). A \<open>sort\<close> stage with arguments that
  returns a table returns the rows of its input, each as often as before, under the
  same columns, in the lexicographic order of the listed columns, taken in the order
  listed: ascending, or descending when the named argument \<open>order\<close> is \<open>desc\<close> in any
  letter case, with missing values last in either direction. When two or more columns
  are listed, rows with equal keys keep their relative order; for one column the order
  of rows with equal keys is the one NumPy's default sort gives, which the theorem leaves
  open.
\<close>

theorem sort_orders_rows:
  assumes "argsort_ok lib" and "args \<noteq> []" and "op_sort lib t args kw = Inr t'"
  shows "map VStr (map (\<lambda>p. colnames t ! p) (sort_columns t args)) = flatten_args args \<and>
         columns t' = columns t \<and>
         mset (rows t') = mset (rows t) \<and>
         sorted_wrt (row_le (sort_columns t args) (sort_ascending kw)) (rows t') \<and>
         (2 \<le> length (sort_columns t args) \<longrightarrow>
            (\<forall>k. filter (\<lambda>r. canon_key (sort_columns t args) r = k) (rows t') =
                 filter (\<lambda>r. canon_key (sort_columns t args) r = k) (rows t)))"
proof -
  let ?o = "case map_of kw ''order'' of None \<Rightarrow> VStr ''asc'' | Some v \<Rightarrow> v"
  from assms(2,3) obtain order where o: "?o = VStr order"
    and sv: "sort_values lib t (flatten_args args) (str_lower order \<noteq> ''desc'') = Inr t'"
    by (cases ?o) (auto simp: op_sort_def)
  have asc: "sort_ascending kw = (str_lower order \<noteq> ''desc'')"
  proof (cases "map_of kw ''order''")
    case None
    with o have "order = ''asc''" by simp
    with None show ?thesis by (simp add: sort_ascending_def str_lower_asc)
  next
    case (Some v)
    with o show ?thesis by (simp add: sort_ascending_def)
  qed
  from sort_values_Inr[OF assms(1) sv] obtain ps where
    ps: "sequence (map (\<lambda>b. case b of VStr s \<Rightarrow> getitem t s | _ \<Rightarrow> Inl (KeyError (py_str lib b)))
           (flatten_args args)) = Inr ps"
    and res: "columns t' = columns t \<and> mset (rows t') = mset (rows t) \<and>
           sorted_wrt (row_le ps (str_lower order \<noteq> ''desc'')) (rows t') \<and>
           (2 \<le> length ps \<longrightarrow>
              (\<forall>k. filter (\<lambda>r. canon_key ps r = k) (rows t') = filter (\<lambda>r. canon_key ps r = k) (rows t)))"
    by blast
  from sort_positions(1)[OF ps] have e: "ps = sort_columns t args" by (simp add: sort_columns_def)
  from sort_positions(2)[OF ps] have n: "map VStr (map (\<lambda>p. colnames t ! p) ps) = flatten_args args" .
  from res n show ?thesis unfolding asc e[symmetric] by blast
qed

theorem sort_orders_rows_witness:
  "argsort_ok lib0 \<and>
   [VStr ''s'', VStr ''x''] \<noteq> [] \<and>
   op_sort lib0 table_x [VStr ''s'', VStr ''x''] [(''order'', VStr ''Desc'')] =
     Inr (table_x\<lparr>rows := [(1, [VNull, VStr ''b'']), (0, [VFloat 2, VStr ''a'']), (2, [VFloat 1, VStr ''a''])]\<rparr>) \<and>
   sort_columns table_x [VStr ''s'', VStr ''x''] = [1, 0] \<and>
   sort_ascending [(''order'', VStr ''Desc'')] = False \<and>
   sorted_wrt (row_le [1, 0] False)
     [(1, [VNull, VStr ''b'']), (0, [VFloat 2, VStr ''a'']), (2, [VFloat 1, VStr ''a''])] \<and>
   mset [(1, [VNull, VStr ''b'']), (0, [VFloat 2, VStr ''a'']), (2, [VFloat 1, VStr ''a''])] =
     mset (rows table_x)"
proof -
  let ?rs = "[(1, [VNull, VStr ''b'']), (0, [VFloat 2, VStr ''a'']), (2, [VFloat 1, VStr ''a''])]"
  have b: "[VStr ''s'', VStr ''x''] \<noteq> []" by simp
  have c: "op_sort lib0 table_x [VStr ''s'', VStr ''x''] [(''order'', VStr ''Desc'')] =
     Inr (table_x\<lparr>rows := ?rs\<rparr>)" by code_simp
  have d: "sort_columns table_x [VStr ''s'', VStr ''x''] = [1, 0]" by code_simp
  have e: "sort_ascending [(''order'', VStr ''Desc'')] = False" by code_simp
  have r: "rows (table_x\<lparr>rows := ?rs\<rparr>) = ?rs" by simp
  note th = sort_orders_rows[OF argsort_ok_lib0 b c]
  from th have "sorted_wrt (row_le (sort_columns table_x [VStr ''s'', VStr ''x''])
                  (sort_ascending [(''order'', VStr ''Desc'')])) (rows (table_x\<lparr>rows := ?rs\<rparr>))"
    by blast
  then have s: "sorted_wrt (row_le [1, 0] False) ?rs" unfolding d e r .
  from th have "mset (rows (table_x\<lparr>rows := ?rs\<rparr>)) = mset (rows table_x)" by blast
  then have m: "mset ?rs = mset (rows table_x)" unfolding r .
  from argsort_ok_lib0 b c d e s m show ?thesis by blast
qed

text \<open>
  The claim as stated fails. The query \<open>sort by x\<close> sorts by a column named \<open>by x\<close>, which
  the table does not have: it raises. And sorted by \<open>x\<close>, the row without a value of \<open>x\<close>
  comes last, after \<open>x = 2\<close>, where \<open>2 <= NaN\<close> is false.
\<close>

theorem sort_by_x_counterexample:
  "query_result engine_x heap_x ''sort by x'' =
     Inl (ValueError (''Query execution error: '' @ exn_str (KeyError ''by x''))) \<and>
   op_sort lib0 table_x [VStr ''x''] [] =
     Inr (table_x\<lparr>rows := [(2, [VFloat 1, VStr ''a'']), (0, [VFloat 2, VStr ''a'']), (1, [VNull, VStr ''b''])]\<rparr>) \<and>
   py_order OpLe (VFloat 2) VNull = Inr False"
proof -
  have a: "query_result engine_x heap_x ''sort by x'' =
     Inl (ValueError (''Query execution error: '' @ exn_str (KeyError ''by x'')))" by code_simp
  have b: "op_sort lib0 table_x [VStr ''x''] [] =
     Inr (table_x\<lparr>rows := [(2, [VFloat 1, VStr ''a'']), (0, [VFloat 2, VStr ''a'']), (1, [VNull, VStr ''b''])]\<rparr>)"
    by code_simp
  have c: "py_order OpLe (VFloat 2) VNull = Inr False" by code_simp
  from a b c show ?thesis by blast
qed

subsection \<open>\<open>extend\<close>: failures are silent\<close>

lemma foldl_extend_skip:
  assumes "\<And>result. extend_arg lib t result a = result"
  shows "foldl (extend_arg lib t) r (xs @ a # ys) = foldl (extend_arg lib t) r (xs @ ys)"
  by (simp add: assms)

text \<open>
  C6. If the evaluation of an \<open>extend\<close> argument \<open>name=expression\<close> fails (it raises, as
  \<open>tolower\<close> and \<open>toupper\<close> do on a column the table does not have, or the expression has
  no supported shape), that turn of the loop leaves the result as it was; the stage
  still returns a table, and it is the table the stage returns without that argument, so
  no other column, old or computed by another argument, is touched.
\<close>

theorem extend_failure_is_silent:
  "(extend_fails lib t a \<longrightarrow>
      extend_arg lib t result a = result \<and>
      (\<exists>r. op_extend lib t (xs @ a # ys) kw = Inr r \<and> op_extend lib t (xs @ ys) kw = Inr r)) \<and>
   (inner \<notin> set (colnames t) \<longrightarrow>
      eval_expression lib t (''tolower('' @ inner @ '')'') = Inl (KeyError inner) \<and>
      eval_expression lib t (''toupper('' @ inner @ '')'') = Inl (KeyError inner))"
proof (rule conjI; rule impI)
  assume f: "extend_fails lib t a"
  have skip: "extend_arg lib t res a = res" for res
    using f by (auto simp: extend_fails_def extend_arg_def split_beta
                     split: val.splits sum.splits option.splits)
  have "foldl (extend_arg lib t) t (xs @ a # ys) = foldl (extend_arg lib t) t (xs @ ys)"
    by (rule foldl_extend_skip) (rule skip)
  with skip show "extend_arg lib t result a = result \<and>
      (\<exists>r. op_extend lib t (xs @ a # ys) kw = Inr r \<and> op_extend lib t (xs @ ys) kw = Inr r)"
    by (simp add: op_extend_def)
next
  assume "inner \<notin> set (colnames t)"
  then have n: "index_of inner (colnames t) = None" by (simp add: index_of_None_iff)
  have l: "butlast (drop 8 (''tolower('' @ inner @ '')'')) = inner"
    "butlast (drop 8 (''toupper('' @ inner @ '')'')) = inner"
    by (simp_all add: butlast_append)
  have s: "str_startswith (''tolower('' @ inner @ '')'') ''tolower(''"
    "\<not> str_startswith (''toupper('' @ inner @ '')'') ''tolower(''"
    "str_startswith (''toupper('' @ inner @ '')'') ''toupper(''"
    by (simp_all add: str_startswith_def)
  show "eval_expression lib t (''tolower('' @ inner @ '')'') = Inl (KeyError inner) \<and>
        eval_expression lib t (''toupper('' @ inner @ '')'') = Inl (KeyError inner)"
    unfolding eval_expression_def by (simp only: s l if_True if_False) (simp add: getitem_def n)
qed

theorem extend_failure_is_silent_witness:
  "extend_fails lib0 table_x (VStr ''z=tolower(nope)'') \<and>
   extend_fails lib0 table_x (VStr ''u=x-x'') \<and>
   op_extend lib0 table_x ([VStr ''y=x+x''] @ VStr ''z=tolower(nope)'' # [VStr ''w=x*x'']) [] =
     Inr \<lparr>columns = [(''x'', Float64), (''s'', Object), (''y'', Float64), (''w'', Float64)],
          rows = [(0, [VFloat 2, VStr ''a'', VFloat 4, VFloat 4]),
                  (1, [VNull, VStr ''b'', VNull, VNull]),
                  (2, [VFloat 1, VStr ''a'', VFloat 2, VFloat 1])]\<rparr> \<and>
   ''nope'' \<notin> set (colnames table_x) \<and>
   eval_expression lib0 table_x ''tolower(nope)'' = Inl (KeyError ''nope'')"
proof -
  have f: "extend_fails lib0 table_x (VStr ''z=tolower(nope)'')" by code_simp
  have g: "extend_fails lib0 table_x (VStr ''u=x-x'')" by code_simp
  have c: "''nope'' \<notin> set (colnames table_x)" by (simp add: colnames_def table_x_def)
  have v: "op_extend lib0 table_x ([VStr ''y=x+x''] @ [VStr ''w=x*x'']) [] =
     Inr \<lparr>columns = [(''x'', Float64), (''s'', Object), (''y'', Float64), (''w'', Float64)],
          rows = [(0, [VFloat 2, VStr ''a'', VFloat 4, VFloat 4]),
                  (1, [VNull, VStr ''b'', VNull, VNull]),
                  (2, [VFloat 1, VStr ''a'', VFloat 2, VFloat 1])]\<rparr>"
    by code_simp
  from extend_failure_is_silent[of lib0 table_x "VStr ''z=tolower(nope)''" _ "[VStr ''y=x+x'']"
      "[VStr ''w=x*x'']" "[]" "''nope''"] f c v
  show ?thesis using g by auto
qed


subsection \<open>The tokenizer\<close>

lemma tok_loop_append:
  "tok_loop (a @ b) st = tok_loop b (tok_loop a st)"
proof (induction a arbitrary: st)
  case Nil
  show ?case by simp
next
  case (Cons c a)
  obtain tokens cur depth where st: "st = (tokens, cur, depth)" by (cases st) auto
  show ?case unfolding st by (auto simp: Let_def Cons.IH)
qed

lemma tok_loop_tokens_prefix:
  "tok_loop s (ts @ tokens, cur, depth) =
     (case tok_loop s (tokens, cur, depth) of (r, c, d) \<Rightarrow> (ts @ r, c, d))"
proof (induction s arbitrary: tokens cur depth)
  case Nil
  show ?case by simp
next
  case (Cons c s)
  show ?case
    using Cons.IH[of "tokens @ [str_strip cur]" "[]"] Cons.IH[of tokens "cur @ [c]"]
    by (auto simp: Let_def)
qed

lemma str_strip_map:
  assumes "\<And>c. is_space (f c) = is_space c"
  shows "str_strip (map f s) = map f (str_strip s)"
proof -
  have eq: "(is_space \<circ> f) = is_space" using assms by (simp add: fun_eq_iff)
  show ?thesis
    unfolding str_strip_def
    by (simp add: dropWhile_map rev_map eq)
qed

lemma tok_loop_map:
  assumes sp: "\<And>c. is_space (f c) = is_space c"
    and sep: "\<And>c. f c = CHR ''('' \<longleftrightarrow> c = CHR ''(''" "\<And>c. f c = CHR '')'' \<longleftrightarrow> c = CHR '')''"
      "\<And>c. f c = CHR '','' \<longleftrightarrow> c = CHR '',''"
  shows "tok_loop (map f s) (map (map f) tokens, map f cur, depth) =
     (case tok_loop s (tokens, cur, depth) of (r, c, d) \<Rightarrow> (map (map f) r, map f c, d))"
proof (induction s arbitrary: tokens cur depth)
  case Nil
  show ?case by simp
next
  case (Cons c s)
  have 1: "map (map f) tokens @ [str_strip (map f cur)] = map (map f) (tokens @ [str_strip cur])"
    by (simp add: str_strip_map[OF sp])
  have 2: "map f cur @ [f c] = map f (cur @ [c])" by simp
  have 3: "[] = map f []" by simp
  show ?case
    apply (simp only: list.map tok_loop.simps Let_def sep 1 2)
    apply (subst 3)
    apply (simp only: Cons.IH)
    apply (simp only: if_distrib[of "\<lambda>x. case_prod _ x"] cong: if_cong)
    done
qed

text \<open>
  C7. Whenever the parenthesis depth is 0 at a comma, the tokenizer ends the current
  token there, whatever stands around the comma: if scanning \<open>a\<close> from the initial state
  leaves the tokens \<open>toks\<close>, the current token \<open>cur\<close> and depth 0, then the tokens of
  \<open>a , b\<close> are \<open>toks\<close>, the stripped \<open>cur\<close>, and the tokens of \<open>b\<close> scanned afresh. In
  particular a quoted literal \<open>'x,y'\<close> at depth 0 is cut into a token ending in \<open>'x\<close> and
  one beginning with \<open>y'\<close>. Quote characters have no effect of their own: renaming the
  characters of the string by any map that fixes the parentheses and the comma and keeps
  white space apart (so a quote may become a letter) renames the tokens and cuts at the
  same places.
\<close>

theorem tokenizer_ignores_quotes:
  "(tok_loop a ([], [], 0) = (toks, cur, 0) \<longrightarrow>
      tokenize (a @ CHR '','' # b) = toks @ [str_strip cur] @ tokenize b) \<and>
   ((\<forall>c. is_space (f c) = is_space c) \<and> (\<forall>c. f c = CHR ''('' \<longleftrightarrow> c = CHR ''('') \<and>
    (\<forall>c. f c = CHR '')'' \<longleftrightarrow> c = CHR '')'') \<and> (\<forall>c. f c = CHR '','' \<longleftrightarrow> c = CHR '','') \<longrightarrow>
      tokenize (map f s) = map (map f) (tokenize s))"
proof (intro conjI impI)
  assume a: "tok_loop a ([], [], 0) = (toks, cur, 0)"
  have "tok_loop (a @ CHR '','' # b) ([], [], 0) = tok_loop b (toks @ [str_strip cur] @ [], [], 0)"
    by (simp add: tok_loop_append a)
  also have "\<dots> = (case tok_loop b ([], [], 0) of (r, c, d) \<Rightarrow> ((toks @ [str_strip cur]) @ r, c, d))"
    using tok_loop_tokens_prefix[of b "toks @ [str_strip cur]" "[]" "[]" 0] by simp
  finally show "tokenize (a @ CHR '','' # b) = toks @ [str_strip cur] @ tokenize b"
    by (simp add: tokenize_def split: prod.splits)
next
  assume f: "(\<forall>c. is_space (f c) = is_space c) \<and> (\<forall>c. f c = CHR ''('' \<longleftrightarrow> c = CHR ''('') \<and>
    (\<forall>c. f c = CHR '')'' \<longleftrightarrow> c = CHR '')'') \<and> (\<forall>c. f c = CHR '','' \<longleftrightarrow> c = CHR '','')"
  have "tok_loop (map f s) (map (map f) [], map f [], 0) =
     (case tok_loop s ([], [], 0) of (r, c, d) \<Rightarrow> (map (map f) r, map f c, d))"
    using f by (intro tok_loop_map) auto
  then show "tokenize (map f s) = map (map f) (tokenize s)"
    using f by (auto simp: tokenize_def str_strip_map split: prod.splits)
qed

theorem tokenizer_ignores_quotes_witness:
  "tok_loop [CHR 0x27, CHR ''a''] ([], [], 0) = ([], [CHR 0x27, CHR ''a''], 0) \<and>
   tokenize [CHR 0x27, CHR ''a'', CHR '','', CHR ''b'', CHR 0x27]
     = [[CHR 0x27, CHR ''a''], [CHR ''b'', CHR 0x27]] \<and>
   tokenize (map id ''f(x,y), z'') = [''f(x,y)'', ''z'']"
proof -
  have a: "tok_loop [CHR 0x27, CHR ''a''] ([], [], 0) = ([], [CHR 0x27, CHR ''a''], 0)"
    by (simp add: Let_def)
  have b: "tokenize [CHR ''b'', CHR 0x27] = [[CHR ''b'', CHR 0x27]]"
    by (simp add: tokenize_def Let_def str_strip_def is_space_def)
  have s: "str_strip [CHR 0x27, CHR ''a''] = [CHR 0x27, CHR ''a'']"
    by (simp add: str_strip_def is_space_def)
  have t: "tokenize ''f(x,y), z'' = [''f(x,y)'', ''z'']"
    by (simp add: tokenize_def Let_def str_strip_def is_space_def)
  from tokenizer_ignores_quotes[of "[CHR 0x27, CHR ''a'']" "[]" "[CHR 0x27, CHR ''a'']"
      "[CHR ''b'', CHR 0x27]" id "''f(x,y), z''"] a b s t
  show ?thesis by simp
qed


subsection \<open>\<open>where\<close>: \<open>==\<close> and \<open>=\<close>\<close>

lemma find_sub_None_Cons:
  "find_sub sep (c # cs) = None \<Longrightarrow> \<not> str_startswith (c # cs) sep \<and> find_sub sep cs = None"
  by (cases "str_startswith (c # cs) sep"; cases "find_sub sep cs") auto

lemma str_replace_absent:
  "\<not> str_contains old s \<Longrightarrow> str_replace old new s = s"
proof (induction old new s rule: str_replace.induct)
  case (1 old new)
  show ?case by simp
next
  case (2 old new c cs)
  from "2.prems" have n: "find_sub old (c # cs) = None" unfolding str_contains_def by blast
  from find_sub_None_Cons[OF n] have a: "\<not> str_startswith (c # cs) old" by blast
  from find_sub_None_Cons[OF n] have b: "\<not> str_contains old cs"
    by (simp add: str_contains_def)
  from "2.IH"(2) a b show ?case by simp
qed

text \<open>
  C9. Let \<open>c'\<close> be the condition \<open>c\<close> with every \<open>==\<close> rewritten to \<open>=\<close>, and let \<open>c'\<close> be
  written with \<open>=\<close> only (it holds no \<open>==\<close>). Then the \<open>where\<close> stage gives the same outcome
  on \<open>c\<close> and on \<open>c'\<close>, for every table and whatever the other arguments: the same table
  or the same exception.
\<close>

theorem where_double_equals_is_equals:
  assumes "str_replace ''=='' ''='' c = c'"
    and "\<not> str_contains ''=='' c'"
  shows "op_where lib t (VStr c # args) kw = op_where lib t (VStr c' # args) kw"
proof -
  have "str_replace ''=='' ''='' c' = c'" using assms(2) by (rule str_replace_absent)
  with assms(1) have "sub_conditions c = sub_conditions c'" by (simp add: sub_conditions_def)
  then show ?thesis by (simp add: op_where_def)
qed

theorem where_double_equals_is_equals_witness:
  "str_replace ''=='' ''='' ''x == 1 and s == a'' = ''x = 1 and s = a'' \<and>
   \<not> str_contains ''=='' ''x = 1 and s = a'' \<and>
   op_where lib0 table_x [VStr ''x == 1 and s == a''] [] =
     Inr (table_x\<lparr>rows := [(2, [VFloat 1, VStr ''a''])]\<rparr>) \<and>
   op_where lib0 table_x [VStr ''x = 1 and s = a''] [] =
     Inr (table_x\<lparr>rows := [(2, [VFloat 1, VStr ''a''])]\<rparr>)"
proof -
  have r: "str_replace ''=='' ''='' ''x == 1 and s == a'' = ''x = 1 and s = a''" by code_simp
  have n: "\<not> str_contains ''=='' ''x = 1 and s = a''" by code_simp
  have v: "op_where lib0 table_x [VStr ''x = 1 and s = a''] [] =
     Inr (table_x\<lparr>rows := [(2, [VFloat 1, VStr ''a''])]\<rparr>)" by code_simp
  from where_double_equals_is_equals[OF r n, of lib0 table_x "[]" "[]"] r n v
  show ?thesis by simp
qed


subsection \<open>Rows without a group key\<close>

text \<open>
  C10. Let a \<open>summarize\<close> stage with at least one group-by column succeed. Then it
  returns the same table on the input with every row removed that has a missing value
  in a group-by column, so such rows are in no group and in no aggregate (the row count
  \<open>count\<close> computes included); and no row of the output has a missing value in a group
  column.
\<close>

theorem summarize_drops_null_key_rows:
  assumes "snd (summarize_parse e) \<noteq> []"
    and "op_summarize lib t (VStr e # args) kw = Inr out"
  shows "op_summarize lib (t\<lparr>rows := filter (has_key t (snd (summarize_parse e))) (rows t)\<rparr>)
           (VStr e # args) kw = Inr out \<and>
         (\<forall>r \<in> set (rows out). \<forall>i < length (snd (summarize_parse e)). snd r ! i \<noteq> VNull)"
proof -
  obtain agg0 group_by where sp: "summarize_parse e = (agg0, group_by)"
    by (cases "summarize_parse e") auto
  with assms(1) have gb: "group_by \<noteq> []" by simp
  let ?t' = "t\<lparr>rows := filter (has_key t group_by) (rows t)\<rparr>"
  let ?agg = "if agg0 = [] then foldl (\<lambda>d c. AList.update c (c, ''mean'') d) [] (numeric_cols t) else agg0"
  have c: "columns ?t' = columns t" by simp
  have nc: "numeric_cols ?t' = numeric_cols t" by (simp add: numeric_cols_def)
  from assms(2) have g: "groupby_agg lib t group_by ?agg = Inr out"
    unfolding op_summarize_grouped[OF sp gb] .
  from groupby_agg_Inr[OF g] obtain ps where ps: "sequence (map (getitem t) group_by) = Inr ps"
    and nl: "\<not> (\<exists>r \<in> set (rows t). \<exists>p \<in> set ps. is_list (snd r ! p))"
    and ag: "aggregate_groups lib t group_by ps ?agg (valid_rows ps (rows t)) = Inr out"
    by blast
  have hk: "has_key t group_by = (\<lambda>r. \<forall>p \<in> set ps. snd r ! p \<noteq> VNull)"
    using has_key_positions[OF ps] by (simp add: fun_eq_iff)
  have rows': "rows ?t' = valid_rows ps (rows t)" by (simp add: hk valid_rows_def)
  have v: "valid_rows ps (rows ?t') = valid_rows ps (rows t)"
    unfolding rows' by (simp add: valid_rows_def)
  have nl': "\<not> (\<exists>r \<in> set (rows ?t'). \<exists>p \<in> set ps. is_list (snd r ! p))"
    using nl unfolding rows' by (auto simp: valid_rows_def)
  have "groupby_agg lib ?t' group_by ?agg = groupby_agg lib t group_by ?agg"
    by (rule groupby_agg_valid_rows[OF c ps v nl nl'])
  with g have 1: "op_summarize lib ?t' (VStr e # args) kw = Inr out"
    unfolding op_summarize_grouped[OF sp gb] nc by simp
  from aggregate_groups_Inr[OF ag] obtain outs where
    outs: "sequence (map (group_row lib t ps ?agg (valid_rows ps (rows t)))
             (sort_by (lex_le True) (remdups (map (group_keys ps) (valid_rows ps (rows t)))))) = Inr outs"
    and ro: "rows out = zip (range_index (length outs)) outs"
    by blast
  let ?valid = "valid_rows ps (rows t)"
  let ?ks = "sort_by (lex_le True) (remdups (map (group_keys ps) ?valid))"
  from outs have m: "map (group_row lib t ps ?agg ?valid) ?ks = map Inr outs"
    by (simp add: sequence_Inr_iff)
  then have "length (map (group_row lib t ps ?agg ?valid) ?ks) = length (map Inr outs)" by simp
  then have lk: "length ?ks = length outs" by simp
  have lps: "length ps = length group_by" using sequence_getitem[OF ps] by simp
  have 2: "snd r ! i \<noteq> VNull" if r: "r \<in> set (rows out)" and i: "i < length group_by" for r i
  proof -
    from r ro have "snd r \<in> set outs" by (metis in_set_zipE prod.collapse)
    then obtain j where j: "j < length outs" "outs ! j = snd r" by (auto simp: in_set_conv_nth)
    have "map (group_row lib t ps ?agg ?valid) ?ks ! j = map Inr outs ! j" using m by simp
    with j lk have gr: "group_row lib t ps ?agg ?valid (?ks ! j) = Inr (snd r)" by simp
    from j lk have kin: "?ks ! j \<in> set ?ks" by simp
    let ?grp = "filter (\<lambda>r. group_keys ps r = ?ks ! j) ?valid"
    from group_nonempty[OF kin] have hd: "hd ?grp \<in> set ?valid" by simp
    from group_row_keys[OF gr] obtain vals where
      cells: "snd r = map (\<lambda>p. snd (hd ?grp) ! p) ps @ vals" by blast
    from i lps have "snd r ! i = snd (hd ?grp) ! (ps ! i)"
      unfolding cells by (simp add: nth_append)
    moreover from i lps have "ps ! i \<in> set ps" by simp
    moreover from hd have "\<forall>p \<in> set ps. snd (hd ?grp) ! p \<noteq> VNull" by (simp add: valid_rows_def)
    ultimately show ?thesis by simp
  qed
  from 1 2 show ?thesis unfolding sp by simp
qed

theorem summarize_drops_null_key_rows_witness:
  "snd (summarize_parse ''cnt=count(v), g'') \<noteq> [] \<and>
   op_summarize lib0 table_gv [VStr ''cnt=count(v), g''] [] =
     Inr \<lparr>columns = [(''g'', Float64), (''cnt'', Int64)], rows = [(0, [VFloat 1, VInt 1])]\<rparr> \<and>
   filter (has_key table_gv (snd (summarize_parse ''cnt=count(v), g''))) (rows table_gv) =
     [(1, [VFloat 1, VInt 20])] \<and>
   op_summarize lib0 (table_gv\<lparr>rows := [(1, [VFloat 1, VInt 20])]\<rparr>) [VStr ''cnt=count(v), g''] [] =
     Inr \<lparr>columns = [(''g'', Float64), (''cnt'', Int64)], rows = [(0, [VFloat 1, VInt 1])]\<rparr>"
proof -
  have a: "snd (summarize_parse ''cnt=count(v), g'') \<noteq> []" by code_simp
  have b: "op_summarize lib0 table_gv [VStr ''cnt=count(v), g''] [] =
     Inr \<lparr>columns = [(''g'', Float64), (''cnt'', Int64)], rows = [(0, [VFloat 1, VInt 1])]\<rparr>"
    by code_simp
  have f: "filter (has_key table_gv (snd (summarize_parse ''cnt=count(v), g''))) (rows table_gv) =
     [(1, [VFloat 1, VInt 20])]" by code_simp
  from summarize_drops_null_key_rows[OF a b]
  have "op_summarize lib0
     (table_gv\<lparr>rows := filter (has_key table_gv (snd (summarize_parse ''cnt=count(v), g''))) (rows table_gv)\<rparr>)
     [VStr ''cnt=count(v), g''] [] =
     Inr \<lparr>columns = [(''g'', Float64), (''cnt'', Int64)], rows = [(0, [VFloat 1, VInt 1])]\<rparr>"
    by (rule conjunct1)
  then have c: "op_summarize lib0 (table_gv\<lparr>rows := [(1, [VFloat 1, VInt 20])]\<rparr>) [VStr ''cnt=count(v), g''] [] =
     Inr \<lparr>columns = [(''g'', Float64), (''cnt'', Int64)], rows = [(0, [VFloat 1, VInt 1])]\<rparr>"
    unfolding f .
  from a b f c show ?thesis by blast
qed

end
